theory Spec2Isabelle
  imports Main "HOL-Library.Word" "HOL-Library.Signed_Division" "HOL-Library.Finite_Map"
    "HOL-Library.Multiset"
begin

unbundle bit_operations_syntax

section \<open>The ADX matching engine (src/pkg/dex/adx_matching_engine.cpp)\<close>

text \<open>
  A shallow embedding of the matching engine. The engine object is a record that every
  member function takes and returns; the reading of \<open>steady_clock::now()\<close> is the
  argument \<open>now\<close> of each function that reads the clock (each reads it at most once for
  its decisions).

  \<^item> \<open>Price = int64_t\<close> and \<open>Quantity = uint64_t\<close> are both \<open>64 word\<close>; the signed
    operations of the source (\<open><\<close>, \<open>/\<close> on two \<open>Price\<close> operands) are written with
    \<open>sint\<close>, the unsigned ones are those of the word type. Where C++ mixes \<open>int64_t\<close>
    with \<open>uint64_t\<close> the usual arithmetic conversions make the operation unsigned.
    Signed overflow (undefined in C++) is the two's complement wrap-around of the word
    operations.
  \<^item> A \<open>time_point\<close> of the steady clock is its count of nanosecond ticks, an \<open>int\<close>
    in the range of \<open>int64_t\<close>. Comparisons of time points are comparisons of the
    counts; a difference of two time points and the sum of a time point and a duration
    are computed in \<open>int64_t\<close> and wrap around like the other signed operations.
  \<^item> \<open>std::unordered_map\<close> is a finite map; \<open>operator[]\<close> inserts a value-initialised
    entry when the key is absent.
  \<^item> Integer division by zero is the fault \<open>DivisionByZero\<close>, the signed quotient of
    the least \<open>int64_t\<close> by \<open>-1\<close> the fault \<open>DivisionOverflow\<close>.
  \<^item> \<open>std::sort\<close> and \<open>thrust::sort\<close> leave the order of equivalent elements
    unspecified; the model is the insertion sort that keeps them in their input order.
    That is what \<open>std::sort\<close> does on ranges of at most 16 elements; on longer ranges
    the library may permute equivalent elements. The examples in which the order of
    equivalent orders matters have books of at most two orders, and the general
    theorems use only that the result is a sorted permutation of the input.
  \<^item> The floating-point latency average and the GPU scratch buffers are not modelled.
\<close>

type_synonym Price = "64 word"
type_synonym Quantity = "64 word"
type_synonym SlotID = "64 word"
type_synonym OrderID = "64 word"
type_synonym time_point = int

datatype fault = DivisionByZero | DivisionOverflow

subsection \<open>Integer helpers\<close>

text \<open>\<open>a / b\<close> on two \<open>int64_t\<close>: truncation towards zero.\<close>

definition sdiv64 :: "64 word \<Rightarrow> 64 word \<Rightarrow> 64 word" where
  "sdiv64 a b = word_of_int (sint a sdiv sint b)"

text \<open>
  \<open>a - b\<close> on two time points and \<open>t + d\<close> on a time point and a duration in
  nanoseconds, both in \<open>int64_t\<close>.
\<close>

definition time_diff :: "int \<Rightarrow> int \<Rightarrow> int" where
  "time_diff a b = signed_take_bit 63 (a - b)"

definition time_add :: "int \<Rightarrow> int \<Rightarrow> int" where
  "time_add t d = signed_take_bit 63 (t + d)"

text \<open>\<open>duration_cast<milliseconds>(d).count()\<close> of a nanosecond duration.\<close>

definition to_milliseconds :: "int \<Rightarrow> 64 word" where
  "to_milliseconds d = word_of_int (d sdiv 1000000)"

subsection \<open>AdSlot\<close>

record AdSlot =
  slot_id :: SlotID
  publisher :: string
  placement :: string
  targeting_hash :: "64 word"
  start_time :: time_point
  end_time :: time_point
  max_impressions :: Quantity
  delivered :: Quantity
  floor_cpm :: Price
  min_viewability :: "16 word"
  active :: bool

definition getCurrentPrice :: "time_point \<Rightarrow> AdSlot \<Rightarrow> Price" where
  "getCurrentPrice now slot =
     (if now > end_time slot \<or> \<not> active slot then 0
      else if now < start_time slot then floor_cpm slot
      else
        let time_remaining = to_milliseconds (time_diff (end_time slot) now);
            total_window = to_milliseconds (time_diff (end_time slot) (start_time slot))
        in if total_window \<le>s 0 then floor_cpm slot
           else
             let premium = sdiv64 (floor_cpm slot) 2
             in floor_cpm slot + sdiv64 (premium * time_remaining) total_window)"

definition remainingSupply :: "AdSlot \<Rightarrow> Quantity" where
  "remainingSupply slot =
     (if max_impressions slot > delivered slot then max_impressions slot - delivered slot else 0)"

subsection \<open>Order\<close>

datatype OrderType = LIMIT | MARKET | COMMIT_REVEAL | AMM_SWAP | FLASH_COVER

record Order =
  order_id :: OrderID
  trader :: string
  order_slot_id :: SlotID
  order_type :: OrderType
  is_buy :: bool
  limit_price :: Price
  quantity :: Quantity
  created :: time_point
  expires :: time_point
  order_targeting_hash :: "64 word"
  commit_hash :: string
  revealed :: bool
  revealed_price :: Price

text \<open>\<open>(uint64_t(limit_price) << 32) | created_ns\<close>\<close>

definition priority :: "Order \<Rightarrow> 64 word" where
  "priority ord = push_bit 32 (limit_price ord) OR word_of_int (created ord)"

subsection \<open>AdMM_Pool\<close>

record AdMM_Pool =
  pool_slot_id :: SlotID
  reserve_ausd :: Price
  reserve_supply :: Quantity
  last_price :: Price

definition getSwapPrice :: "AdMM_Pool \<Rightarrow> Quantity \<Rightarrow> bool \<Rightarrow> fault + Price" where
  "getSwapPrice pool quantity_in buy_ausd =
     (if reserve_ausd pool = 0 \<or> reserve_supply pool = 0 then Inr 0
      else
        let k = reserve_ausd pool * reserve_supply pool
        in if buy_ausd then
             let new_supply = reserve_supply pool + quantity_in
             in if new_supply = 0 then Inl DivisionByZero
                else
                  let new_ausd = k div new_supply
                  in Inr (reserve_ausd pool - new_ausd)
           else
             let new_ausd = reserve_ausd pool + quantity_in
             in if new_ausd = 0 then Inl DivisionByZero
                else if sint k = - (2 ^ 63) \<and> sint new_ausd = - 1 then Inl DivisionOverflow
                else
                  let new_supply = sdiv64 k new_ausd
                  in Inr (reserve_supply pool - new_supply))"

subsection \<open>Batch auction result and engine state\<close>

text \<open>
  \<open>BatchAuctionResult result;\<close> leaves \<open>total_matches\<close> uninitialised: \<open>None\<close>.
  \<open>processing_time\<close> is a wall-clock measurement and is left out.
\<close>

record BatchAuctionResult =
  matches :: "(OrderID \<times> OrderID) list"
  clearing_prices :: "Price list"
  clearing_quantities :: "Quantity list"
  result_total_matches :: "64 word option"

record Engine =
  bid_books :: "(SlotID, Order list) fmap"
  ask_books :: "(SlotID, Order list) fmap"
  ad_slots :: "(SlotID, AdSlot) fmap"
  amm_pools :: "(SlotID, AdMM_Pool) fmap"
  commit_phase_orders :: "(SlotID, Order list) fmap"
  reveal_deadlines :: "(SlotID, time_point) fmap"
  total_orders_processed :: "64 word"
  total_matches :: "64 word"

definition new_engine :: Engine where
  "new_engine =
     \<lparr>bid_books = fmempty, ask_books = fmempty, ad_slots = fmempty, amm_pools = fmempty,
      commit_phase_orders = fmempty, reveal_deadlines = fmempty,
      total_orders_processed = 0, total_matches = 0\<rparr>"

text \<open>\<open>m[k]\<close> on an \<open>unordered_map\<close>: the entry, inserted value-initialised if absent.\<close>

definition index_or_insert :: "'v \<Rightarrow> 'k \<Rightarrow> ('k, 'v) fmap \<Rightarrow> 'v \<times> ('k, 'v) fmap" where
  "index_or_insert dflt k m =
     (case fmlookup m k of Some v \<Rightarrow> (v, m) | None \<Rightarrow> (dflt, fmupd k dflt m))"

definition zero_pool :: AdMM_Pool where
  "zero_pool = \<lparr>pool_slot_id = 0, reserve_ausd = 0, reserve_supply = 0, last_price = 0\<rparr>"

subsection \<open>Sorting with a comparator\<close>

primrec insert_by :: "('a \<Rightarrow> 'a \<Rightarrow> bool) \<Rightarrow> 'a \<Rightarrow> 'a list \<Rightarrow> 'a list" where
  "insert_by lt x [] = [x]"
| "insert_by lt x (y # ys) =
     (if \<not> lt y x then x # y # ys else y # insert_by lt x ys)"

primrec sort_by :: "('a \<Rightarrow> 'a \<Rightarrow> bool) \<Rightarrow> 'a list \<Rightarrow> 'a list" where
  "sort_by lt [] = []"
| "sort_by lt (x # xs) = insert_by lt x (sort_by lt xs)"

subsection \<open>registerAdSlot\<close>

definition registerAdSlot :: "AdSlot \<Rightarrow> Engine \<Rightarrow> bool \<times> Engine" where
  "registerAdSlot slot s =
     (if fmlookup (ad_slots s) (slot_id slot) \<noteq> None then (False, s)
      else (True, s\<lparr>ad_slots := fmupd (slot_id slot) slot (ad_slots s),
                     bid_books := fmupd (slot_id slot) [] (bid_books s),
                     ask_books := fmupd (slot_id slot) [] (ask_books s)\<rparr>))"

subsection \<open>Immediate matching\<close>

text \<open>
  The loop of \<open>tryImmedateMatch\<close> on the two books. The first component lists the calls
  of \<open>executeFill\<close> (bid id, ask id, price, quantity) in order; \<open>executeFill\<close> itself has
  an empty body.
\<close>

type_synonym fill = "OrderID \<times> OrderID \<times> Price \<times> Quantity"

function match_loop :: "Order list \<Rightarrow> Order list \<Rightarrow> fill list \<times> Order list \<times> Order list" where
  "match_loop [] asks = ([], [], asks)"
| "match_loop (b # bs) [] = ([], b # bs, [])"
| "match_loop (b # bs) (a # as) =
     (if limit_price a \<le>s limit_price b then
        (case match_loop
                (if quantity b = min (quantity b) (quantity a) then bs
                 else b\<lparr>quantity := quantity b - min (quantity b) (quantity a)\<rparr> # bs)
                (if quantity a = min (quantity b) (quantity a) then as
                 else a\<lparr>quantity := quantity a - min (quantity b) (quantity a)\<rparr> # as)
         of (fills, bids', asks') \<Rightarrow>
              ((order_id b, order_id a, limit_price a, min (quantity b) (quantity a)) # fills,
               bids', asks'))
      else ([], b # bs, a # as))"
  by pat_completeness auto
termination
  by (relation "measure (\<lambda>(bids, asks). length bids + length asks)")
     (auto simp: min_def split: if_splits)

declare match_loop.simps [simp del]

definition tryImmedateMatch :: "SlotID \<Rightarrow> Engine \<Rightarrow> Engine" where
  "tryImmedateMatch sid s =
     (case index_or_insert [] sid (bid_books s) of (bids, bid_books1) \<Rightarrow>
      case index_or_insert [] sid (ask_books s) of (asks, ask_books1) \<Rightarrow>
      case match_loop bids asks of (fills, bids', asks') \<Rightarrow>
        s\<lparr>bid_books := fmupd sid bids' bid_books1,
          ask_books := fmupd sid asks' ask_books1,
          total_matches := total_matches s + of_nat (length fills)\<rparr>)"

subsection \<open>Order routing\<close>

definition addLimitOrder :: "Order \<Rightarrow> Engine \<Rightarrow> bool \<times> Engine" where
  "addLimitOrder ord s =
     (let sid = order_slot_id ord;
          s1 = (if is_buy ord then
                  (case index_or_insert [] sid (bid_books s) of (book, books1) \<Rightarrow>
                     s\<lparr>bid_books :=
                         fmupd sid (sort_by (\<lambda>a b. limit_price b <s limit_price a) (book @ [ord]))
                           books1\<rparr>)
                else
                  (case index_or_insert [] sid (ask_books s) of (book, books1) \<Rightarrow>
                     s\<lparr>ask_books :=
                         fmupd sid (sort_by (\<lambda>a b. limit_price a <s limit_price b) (book @ [ord]))
                           books1\<rparr>));
          s2 = s1\<lparr>total_orders_processed := total_orders_processed s1 + 1\<rparr>;
          s3 = (if order_type ord = MARKET then tryImmedateMatch sid s2 else s2)
      in (True, s3))"

definition addCommitRevealOrder :: "Order \<Rightarrow> Engine \<Rightarrow> bool \<times> Engine" where
  "addCommitRevealOrder ord s =
     (case index_or_insert [] (order_slot_id ord) (commit_phase_orders s) of (pending, m1) \<Rightarrow>
        (True, s\<lparr>commit_phase_orders := fmupd (order_slot_id ord) (pending @ [ord]) m1\<rparr>))"

definition executeAMMSwap :: "Order \<Rightarrow> Engine \<Rightarrow> fault + bool \<times> Engine" where
  "executeAMMSwap ord s =
     (case index_or_insert zero_pool (order_slot_id ord) (amm_pools s) of (pool, pools1) \<Rightarrow>
      (case getSwapPrice pool (quantity ord) (is_buy ord) of
        Inl f \<Rightarrow> Inl f
      | Inr swap_amount \<Rightarrow>
          if swap_amount \<le>s 0 then Inr (False, s\<lparr>amm_pools := pools1\<rparr>)
          else
            let pool1 =
                 (if is_buy ord then
                    pool\<lparr>reserve_ausd := reserve_ausd pool + quantity ord,
                         reserve_supply := reserve_supply pool - swap_amount\<rparr>
                  else
                    pool\<lparr>reserve_ausd := reserve_ausd pool - swap_amount,
                         reserve_supply := reserve_supply pool + quantity ord\<rparr>)
            in if reserve_supply pool1 = 0 then Inl DivisionByZero
               else Inr (True,
                      s\<lparr>amm_pools :=
                          fmupd (order_slot_id ord)
                            (pool1\<lparr>last_price := reserve_ausd pool1 div reserve_supply pool1\<rparr>)
                            pools1\<rparr>)))"

definition executeFlashCover :: "Order \<Rightarrow> Engine \<Rightarrow> bool \<times> Engine" where
  "executeFlashCover ord s = (True, s)"

definition addOrder :: "time_point \<Rightarrow> Order \<Rightarrow> Engine \<Rightarrow> fault + bool \<times> Engine" where
  "addOrder now ord s =
     (case fmlookup (ad_slots s) (order_slot_id ord) of
        None \<Rightarrow> Inr (False, s)
      | Some slot \<Rightarrow>
          if order_targeting_hash ord \<noteq> targeting_hash slot then Inr (False, s)
          else if now > end_time slot then Inr (False, s)
          else (case order_type ord of
                  LIMIT \<Rightarrow> Inr (addLimitOrder ord s)
                | MARKET \<Rightarrow> Inr (addLimitOrder ord s)
                | COMMIT_REVEAL \<Rightarrow> Inr (addCommitRevealOrder ord s)
                | AMM_SWAP \<Rightarrow> executeAMMSwap ord s
                | FLASH_COVER \<Rightarrow> Inr (executeFlashCover ord s)))"

subsection \<open>Batch auction\<close>

text \<open>The inner loop of \<open>matchOrdersGPU\<close>: the first ask the bid crosses.\<close>

primrec first_match :: "Order \<Rightarrow> Order list \<Rightarrow> (OrderID \<times> OrderID) list" where
  "first_match bid [] = []"
| "first_match bid (ask # asks) =
     (if limit_price ask \<le>s limit_price bid \<and> order_targeting_hash bid = order_targeting_hash ask
      then [(order_id bid, order_id ask)]
      else first_match bid asks)"

primrec match_bids :: "Order list \<Rightarrow> Order list \<Rightarrow> (OrderID \<times> OrderID) list" where
  "match_bids [] asks = []"
| "match_bids (bid # bids) asks = first_match bid asks @ match_bids bids asks"

definition matchOrdersGPU :: "Order list \<Rightarrow> nat \<Rightarrow> (OrderID \<times> OrderID) list" where
  "matchOrdersGPU orders bid_count = match_bids (take bid_count orders) (drop bid_count orders)"

definition calculateClearingPrices :: "(OrderID \<times> OrderID) list \<Rightarrow> Price list" where
  "calculateClearingPrices ms = map (\<lambda>_. 0) ms"

definition runBatchAuction :: "SlotID \<Rightarrow> Engine \<Rightarrow> BatchAuctionResult \<times> Engine" where
  "runBatchAuction sid s =
     (case index_or_insert [] sid (bid_books s) of (bids, bid_books1) \<Rightarrow>
      case index_or_insert [] sid (ask_books s) of (asks, ask_books1) \<Rightarrow>
        let s1 = s\<lparr>bid_books := bid_books1, ask_books := ask_books1\<rparr>
        in if bids = [] \<or> asks = [] then
             (\<lparr>matches = [], clearing_prices = [], clearing_quantities = [],
               result_total_matches = None\<rparr>, s1)
           else
             let d_orders = sort_by (\<lambda>a b. priority a > priority b) bids
                            @ sort_by (\<lambda>a b. priority a < priority b) asks;
                 ms = matchOrdersGPU d_orders (length bids);
                 cps = (if ms \<noteq> [] then calculateClearingPrices ms else [])
             in (\<lparr>matches = ms, clearing_prices = cps, clearing_quantities = [],
                  result_total_matches = Some (of_nat (length ms))\<rparr>,
                 s1\<lparr>total_matches := total_matches s1 + of_nat (length ms)\<rparr>))"

subsection \<open>Commit-reveal\<close>

definition startCommitPhase :: "time_point \<Rightarrow> SlotID \<Rightarrow> 32 word \<Rightarrow> Engine \<Rightarrow> bool \<times> Engine" where
  "startCommitPhase now sid duration_ms s =
     (True, s\<lparr>reveal_deadlines :=
                fmupd sid (time_add now (uint duration_ms * 1000000)) (reveal_deadlines s),
              commit_phase_orders := fmupd sid [] (commit_phase_orders s)\<rparr>)"

text \<open>
  \<open>std::find_if\<close> followed by the two assignments through the iterator: the first order
  with the id is marked revealed; \<open>None\<close> when the iterator is \<open>end()\<close>.
\<close>

primrec reveal_first :: "OrderID \<Rightarrow> Price \<Rightarrow> Order list \<Rightarrow> Order list option" where
  "reveal_first oid p [] = None"
| "reveal_first oid p (x # xs) =
     (if order_id x = oid then Some (x\<lparr>revealed := True, revealed_price := p\<rparr> # xs)
      else map_option ((#) x) (reveal_first oid p xs))"

text \<open>
  The local \<open>reveal_data = to_string(revealed_price) + reveal_nonce\<close> is computed and
  never read, so the nonce has no influence on the result.
\<close>

definition revealBid ::
  "time_point \<Rightarrow> SlotID \<Rightarrow> OrderID \<Rightarrow> Price \<Rightarrow> string \<Rightarrow> Engine \<Rightarrow> bool \<times> Engine" where
  "revealBid now sid oid revealed_price' reveal_nonce s =
     (case fmlookup (reveal_deadlines s) sid of
        None \<Rightarrow> (False, s)
      | Some deadline \<Rightarrow>
          if now > deadline then (False, s)
          else
            (case index_or_insert [] sid (commit_phase_orders s) of (orders, m1) \<Rightarrow>
               (case reveal_first oid revealed_price' orders of
                  None \<Rightarrow> (False, s\<lparr>commit_phase_orders := m1\<rparr>)
                | Some orders' \<Rightarrow> (True, s\<lparr>commit_phase_orders := fmupd sid orders' m1\<rparr>))))"

subsection \<open>Liquidity and statistics\<close>

definition addLiquidity :: "SlotID \<Rightarrow> Price \<Rightarrow> Quantity \<Rightarrow> Engine \<Rightarrow> fault + bool \<times> Engine" where
  "addLiquidity sid ausd_amount slot_amount s =
     (case index_or_insert zero_pool sid (amm_pools s) of (pool, pools1) \<Rightarrow>
        let pool1 = pool\<lparr>reserve_ausd := reserve_ausd pool + ausd_amount,
                        reserve_supply := reserve_supply pool + slot_amount\<rparr>
        in if reserve_supply pool1 = 0 then Inl DivisionByZero
           else Inr (True,
                  s\<lparr>amm_pools :=
                      fmupd sid (pool1\<lparr>last_price := reserve_ausd pool1 div reserve_supply pool1\<rparr>)
                        pools1\<rparr>))"

record EngineStats =
  total_orders :: "64 word"
  stats_total_matches :: "64 word"
  active_slots :: "32 word"
  active_pools :: "32 word"

definition getStats :: "Engine \<Rightarrow> EngineStats" where
  "getStats s =
     \<lparr>total_orders = total_orders_processed s,
      stats_total_matches = total_matches s,
      active_slots = of_nat (fcard (fmdom (ad_slots s))),
      active_pools = of_nat (fcard (fmdom (amm_pools s)))\<rparr>"

subsection \<open>Notions used in the statements\<close>

text \<open>The quantity of a fill, the last argument of the call of \<open>executeFill\<close>.\<close>

definition fill_quantity :: "fill \<Rightarrow> Quantity" where
  "fill_quantity f = snd (snd (snd f))"

text \<open>
  The two books at the start of the iteration \<open>n\<close> of the loop of \<open>tryImmedateMatch\<close>
  (counted from 0): \<open>after_fill\<close> is the removal or reduction of the two heads that
  ends an iteration with a match, \<open>books_after n\<close> repeats it \<open>n\<close> times while the heads
  cross.
\<close>

fun after_fill :: "Order list \<Rightarrow> Order list \<Rightarrow> Order list \<times> Order list" where
  "after_fill (b # bs) (a # as) =
     (if quantity b = min (quantity b) (quantity a) then bs
      else b\<lparr>quantity := quantity b - min (quantity b) (quantity a)\<rparr> # bs,
      if quantity a = min (quantity b) (quantity a) then as
      else a\<lparr>quantity := quantity a - min (quantity b) (quantity a)\<rparr> # as)"
| "after_fill bids asks = (bids, asks)"

fun books_after :: "nat \<Rightarrow> Order list \<Rightarrow> Order list \<Rightarrow> Order list \<times> Order list" where
  "books_after 0 bids asks = (bids, asks)"
| "books_after (Suc n) (b # bs) (a # as) =
     (if limit_price a \<le>s limit_price b
      then (case after_fill (b # bs) (a # as) of (bids', asks') \<Rightarrow> books_after n bids' asks')
      else (b # bs, a # as))"
| "books_after (Suc n) bids asks = (bids, asks)"

text \<open>A bid book with non-increasing, an ask book with non-decreasing limit prices.\<close>

definition bids_sorted :: "Order list \<Rightarrow> bool" where
  "bids_sorted xs = sorted_wrt (\<lambda>a b. limit_price b \<le>s limit_price a) xs"

definition asks_sorted :: "Order list \<Rightarrow> bool" where
  "asks_sorted xs = sorted_wrt (\<lambda>a b. limit_price a \<le>s limit_price b) xs"

definition books_sorted :: "Engine \<Rightarrow> bool" where
  "books_sorted s =
     ((\<forall>sid bids. fmlookup (bid_books s) sid = Some bids \<longrightarrow> bids_sorted bids)
      \<and> (\<forall>sid asks. fmlookup (ask_books s) sid = Some asks \<longrightarrow> asks_sorted asks))"

text \<open>The product of the two reserves of a pool, as a mathematical integer.\<close>

definition reserve_product :: "AdMM_Pool \<Rightarrow> int" where
  "reserve_product pool = sint (reserve_ausd pool) * uint (reserve_supply pool)"

subsection \<open>Example inputs\<close>

text \<open>
  A registered slot (window of 1000 ms, floor 1000, capacity 5), the engine holding it,
  and orders against it with the slot's targeting hash.
\<close>

definition slot_S1 :: AdSlot where
  "slot_S1 =
     \<lparr>slot_id = 1, publisher = ''pub'', placement = ''ctv-preroll'', targeting_hash = 7,
      start_time = 0, end_time = 1000000000, max_impressions = 5, delivered = 0,
      floor_cpm = 1000, min_viewability = 70, active = True\<rparr>"

definition engine_S1 :: Engine where
  "engine_S1 = snd (registerAdSlot slot_S1 new_engine)"

definition mk_order :: "OrderID \<Rightarrow> OrderType \<Rightarrow> bool \<Rightarrow> Price \<Rightarrow> Quantity \<Rightarrow> time_point \<Rightarrow> Order" where
  "mk_order oid ty buy price qty t =
     \<lparr>order_id = oid, trader = ''trader'', order_slot_id = 1, order_type = ty, is_buy = buy,
      limit_price = price, quantity = qty, created = t, expires = 2000000000,
      order_targeting_hash = 7, commit_hash = ''c0ffee'', revealed = False, revealed_price = 0\<rparr>"

definition swap_order :: "bool \<Rightarrow> Quantity \<Rightarrow> Order" where
  "swap_order buy qty = mk_order 20 AMM_SWAP buy 0 qty 100"

definition stale_order :: Order where
  "stale_order = (mk_order 3 LIMIT True 1500 0 100)\<lparr>expires := 100\<rparr>"

text \<open>
  The slot with a window of half a millisecond, with a negative floor, and with a floor
  of one AUSD in wei.
\<close>

definition slot_brief :: AdSlot where
  "slot_brief = slot_S1\<lparr>end_time := 500000\<rparr>"

definition slot_negative :: AdSlot where
  "slot_negative = slot_S1\<lparr>floor_cpm := - 1000\<rparr>"

definition slot_wei :: AdSlot where
  "slot_wei = slot_S1\<lparr>floor_cpm := 1000000000000000000\<rparr>"

text \<open>The engine in a commit phase ending at 1000 ms, with one committed order.\<close>

definition engine_commit :: Engine where
  "engine_commit =
     snd (addCommitRevealOrder (mk_order 9 COMMIT_REVEAL True 1500 10 100)
            (snd (startCommitPhase 0 1 1000 engine_S1)))"

text \<open>Engines with an AMM pool for the slot.\<close>

definition engine_pool21 :: Engine where
  "engine_pool21 =
     engine_S1\<lparr>amm_pools :=
       fmupd 1 \<lparr>pool_slot_id = 0, reserve_ausd = 2, reserve_supply = 1, last_price = 2\<rparr> fmempty\<rparr>"

definition pool_1000 :: AdMM_Pool where
  "pool_1000 = \<lparr>pool_slot_id = 0, reserve_ausd = 1000, reserve_supply = 1000, last_price = 1\<rparr>"

definition engine_pool1000 :: Engine where
  "engine_pool1000 = engine_S1\<lparr>amm_pools := fmupd 1 pool_1000 fmempty\<rparr>"

text \<open>A resting bid and a crossing MARKET ask; the engine before and after the ask.\<close>

definition bid_A :: Order where
  "bid_A = mk_order 1 LIMIT True 1500 10 100"

definition ask_A :: Order where
  "ask_A = mk_order 2 MARKET False 1000 10 200"

definition engine_bid_A :: Engine where
  "engine_bid_A = engine_S1\<lparr>bid_books := fmupd 1 [bid_A] (bid_books engine_S1),
                              total_orders_processed := 1\<rparr>"

definition engine_filled :: Engine where
  "engine_filled = engine_S1\<lparr>total_orders_processed := 2, total_matches := 1\<rparr>"

text \<open>Two resting bids and a MARKET ask that fills the first and part of the second.\<close>

definition bid_big :: Order where
  "bid_big = mk_order 41 LIMIT True 1500 10 100"

definition bid_small :: Order where
  "bid_small = mk_order 42 LIMIT True 1400 5 110"

definition ask_wide :: Order where
  "ask_wide = mk_order 43 MARKET False 1000 12 200"

text \<open>Two bids at one price, the later created one submitted first.\<close>

definition bid_late :: Order where
  "bid_late = mk_order 11 LIMIT True 1000 10 200"

definition bid_early :: Order where
  "bid_early = mk_order 12 LIMIT True 1000 10 100"

definition engine_bid_late :: Engine where
  "engine_bid_late = engine_S1\<lparr>bid_books := fmupd 1 [bid_late] (bid_books engine_S1),
                                 total_orders_processed := 1\<rparr>"

definition engine_two_bids :: Engine where
  "engine_two_bids = engine_S1\<lparr>bid_books := fmupd 1 [bid_late, bid_early] (bid_books engine_S1),
                                 total_orders_processed := 2\<rparr>"

text \<open>
  A bid and asks at one price for the batch auction: \<open>ask_x\<close> and \<open>ask_y\<close> share the
  \<open>created\<close> tick, \<open>ask_z\<close> is one tick later. \<open>engine_books\<close> is the engine holding
  the given books for the slot.
\<close>

definition batch_bid :: Order where
  "batch_bid = mk_order 30 LIMIT True 1500 10 100"

definition ask_x :: Order where
  "ask_x = mk_order 31 LIMIT False 1000 10 100"

definition ask_y :: Order where
  "ask_y = mk_order 32 LIMIT False 1000 10 100"

definition ask_z :: Order where
  "ask_z = mk_order 33 LIMIT False 1000 10 101"

definition engine_books :: "Order list \<Rightarrow> Order list \<Rightarrow> 64 word \<Rightarrow> Engine" where
  "engine_books bids asks n =
     engine_S1\<lparr>bid_books := fmupd 1 bids (bid_books engine_S1),
               ask_books := fmupd 1 asks (ask_books engine_S1),
               total_orders_processed := n\<rparr>"

section \<open>Properties\<close>

subsection \<open>Facts about the example engine and the counters\<close>

lemma engine_S1_eq: "engine_S1 = new_engine\<lparr>ad_slots := fmupd 1 slot_S1 fmempty,
                     bid_books := fmupd 1 [] fmempty,
                     ask_books := fmupd 1 [] fmempty\<rparr>"
  by (simp add: engine_S1_def registerAdSlot_def new_engine_def slot_S1_def)

lemma tryImmedateMatch_total_orders:
  "total_orders_processed (tryImmedateMatch sid s) = total_orders_processed s"
  by (simp add: tryImmedateMatch_def split: prod.splits)

lemma addLimitOrder_total_orders:
  "addLimitOrder ord s = (b, s') \<Longrightarrow> b \<and> total_orders_processed s' = total_orders_processed s + 1"
  by (auto simp: addLimitOrder_def Let_def tryImmedateMatch_total_orders split: prod.splits if_splits)

lemma executeAMMSwap_total_orders:
  "executeAMMSwap ord s = Inr (b, s') \<Longrightarrow> total_orders_processed s' = total_orders_processed s"
  by (auto simp: executeAMMSwap_def Let_def split: prod.splits sum.splits if_splits)

subsection \<open>Statistics\<close>

text \<open>
  Claim C10. \<open>getStats().total_orders\<close> counts the accepted LIMIT and MARKET orders
  only: a submission that \<open>addOrder\<close> finishes adds one to the counter when it is an
  accepted LIMIT or MARKET order and leaves the counter unchanged otherwise, in
  particular for every accepted COMMIT_REVEAL, AMM_SWAP or FLASH_COVER order.
\<close>

theorem total_orders_counts_limit_and_market:
  assumes "addOrder now ord s = Inr (accepted, s')"
  shows "total_orders (getStats s') =
           (if accepted \<and> (order_type ord = LIMIT \<or> order_type ord = MARKET)
            then total_orders (getStats s) + 1 else total_orders (getStats s))"
  using assms
  by (cases "order_type ord")
     (auto simp: addOrder_def getStats_def addCommitRevealOrder_def executeFlashCover_def
           dest: addLimitOrder_total_orders executeAMMSwap_total_orders
           split: option.splits if_splits prod.splits)

theorem total_orders_counts_limit_and_market_witness:
  "addOrder 500 (mk_order 9 COMMIT_REVEAL True 1500 10 100) engine_S1 =
     Inr (True, snd (addCommitRevealOrder (mk_order 9 COMMIT_REVEAL True 1500 10 100) engine_S1))
   \<and> total_orders (getStats (snd (addCommitRevealOrder (mk_order 9 COMMIT_REVEAL True 1500 10 100) engine_S1)))
       = total_orders (getStats engine_S1)"
proof -
  have h: "addOrder 500 (mk_order 9 COMMIT_REVEAL True 1500 10 100) engine_S1 =
     Inr (True, snd (addCommitRevealOrder (mk_order 9 COMMIT_REVEAL True 1500 10 100) engine_S1))"
    by (simp add: addOrder_def engine_S1_eq new_engine_def mk_order_def slot_S1_def
          addCommitRevealOrder_def index_or_insert_def)
  from total_orders_counts_limit_and_market [OF h] h show ?thesis
    by (simp add: mk_order_def)
qed

text \<open>
  Claim C9. For a slot without an AMM pool, an AMM_SWAP order that passes the three
  checks of \<open>addOrder\<close> is refused (the quote on the empty reserves is 0), and the pool
  map has gained a zero-reserve entry for the slot: \<open>active_pools\<close> is one more than
  before.
\<close>

theorem failed_swap_creates_pool:
  assumes "fmlookup (amm_pools s) (order_slot_id ord) = None"
    and "order_type ord = AMM_SWAP"
    and "fmlookup (ad_slots s) (order_slot_id ord) = Some slot"
    and "order_targeting_hash ord = targeting_hash slot"
    and "now \<le> end_time slot"
  shows "addOrder now ord s =
           Inr (False, s\<lparr>amm_pools := fmupd (order_slot_id ord) zero_pool (amm_pools s)\<rparr>)
         \<and> active_pools (getStats (s\<lparr>amm_pools := fmupd (order_slot_id ord) zero_pool (amm_pools s)\<rparr>))
             = active_pools (getStats s) + 1
         \<and> fcard (fmdom (fmupd (order_slot_id ord) zero_pool (amm_pools s)))
             = fcard (fmdom (amm_pools s)) + 1"
proof -
  have notin: "order_slot_id ord |\<notin>| fmdom (amm_pools s)"
    using assms(1) by (simp add: fmdom_notI)
  have quote: "getSwapPrice zero_pool (quantity ord) (is_buy ord) = Inr 0"
    by (simp add: getSwapPrice_def zero_pool_def)
  have run: "addOrder now ord s =
           Inr (False, s\<lparr>amm_pools := fmupd (order_slot_id ord) zero_pool (amm_pools s)\<rparr>)"
    using assms by (simp add: addOrder_def executeAMMSwap_def index_or_insert_def quote)
  have card: "fcard (fmdom (fmupd (order_slot_id ord) zero_pool (amm_pools s)))
             = fcard (fmdom (amm_pools s)) + 1"
    using notin by (simp add: fcard_finsert_disjoint)
  show ?thesis using run card by (simp add: getStats_def)
qed

theorem failed_swap_creates_pool_witness:
  "addOrder 500 (swap_order True 10) engine_S1 =
     Inr (False, engine_S1\<lparr>amm_pools := fmupd 1 zero_pool fmempty\<rparr>)
   \<and> active_pools (getStats engine_S1) = 0
   \<and> active_pools (getStats (engine_S1\<lparr>amm_pools := fmupd 1 zero_pool fmempty\<rparr>)) = 1"
proof -
  have a: "fmlookup (amm_pools engine_S1) (order_slot_id (swap_order True 10)) = None"
    by (simp add: engine_S1_eq new_engine_def)
  have b: "order_type (swap_order True 10) = AMM_SWAP"
    by (simp add: swap_order_def mk_order_def)
  have c: "fmlookup (ad_slots engine_S1) (order_slot_id (swap_order True 10)) = Some slot_S1"
    by (simp add: engine_S1_eq new_engine_def swap_order_def mk_order_def)
  have d: "order_targeting_hash (swap_order True 10) = targeting_hash slot_S1"
    by (simp add: swap_order_def mk_order_def slot_S1_def)
  have e: "500 \<le> end_time slot_S1"
    by (simp add: slot_S1_def)
  have f: "active_pools (getStats engine_S1) = 0"
    by (simp add: getStats_def engine_S1_eq new_engine_def fcard_fempty)
  have g: "order_slot_id (swap_order True 10) = 1" "amm_pools engine_S1 = fmempty"
    by (simp_all add: swap_order_def mk_order_def engine_S1_eq new_engine_def)
  from failed_swap_creates_pool [OF a b c d e] f g show ?thesis
    by simp
qed

subsection \<open>Commit-reveal\<close>

lemma engine_commit_eq:
  "engine_commit = engine_S1\<lparr>reveal_deadlines := fmupd 1 1000000000 fmempty,
       commit_phase_orders := fmupd 1 [mk_order 9 COMMIT_REVEAL True 1500 10 100] fmempty\<rparr>"
  by (simp add: engine_commit_def addCommitRevealOrder_def startCommitPhase_def time_add_def
        engine_S1_eq new_engine_def index_or_insert_def mk_order_def)

text \<open>
  What \<open>revealBid\<close> decides on: a recorded deadline that has not passed and the
  presence of the order id. A refused reveal leaves every committed order as it was.
\<close>

lemma reveal_first_None: "reveal_first oid p xs = None \<longleftrightarrow> oid \<notin> order_id ` set xs"
  by (induction xs) auto

lemma revealBid_succeeds_iff:
  "fst (revealBid now sid oid p nonce s) \<longleftrightarrow>
     (\<exists>deadline orders. fmlookup (reveal_deadlines s) sid = Some deadline \<and> now \<le> deadline
        \<and> fmlookup (commit_phase_orders s) sid = Some orders \<and> oid \<in> order_id ` set orders)"
proof (cases "fmlookup (reveal_deadlines s) sid")
  case None
  then show ?thesis by (simp add: revealBid_def)
next
  case (Some deadline)
  show ?thesis
  proof (cases "fmlookup (commit_phase_orders s) sid")
    case None
    with Some show ?thesis
      by (simp add: revealBid_def index_or_insert_def)
  next
    case (Some orders)
    with \<open>fmlookup (reveal_deadlines s) sid = Some deadline\<close> show ?thesis
      using reveal_first_None [of oid p orders]
      by (cases "reveal_first oid p orders") (auto simp: revealBid_def index_or_insert_def)
  qed
qed

lemma revealBid_failure_keeps_orders:
  assumes "revealBid now sid oid p nonce s = (False, s')"
    and "fmlookup (commit_phase_orders s) k = Some orders"
  shows "fmlookup (commit_phase_orders s') k = Some orders"
  using assms
  by (auto simp: revealBid_def index_or_insert_def split: option.splits if_splits)

text \<open>
  Claim C1. A reveal is to succeed only when the hash of the revealed price and nonce
  equals the stored \<open>commit_hash\<close>. \<open>revealBid\<close> checks the deadline and the presence
  of the order and nothing else: against the one commitment \<open>c0ffee\<close> it accepts the
  price 1500 with one nonce and the price 1501 with another, and records each.
\<close>

theorem revealBid_accepts_any_reveal:
  "revealBid 500 1 9 1500 ''nonce-1'' engine_commit =
     (True, engine_commit\<lparr>commit_phase_orders :=
        fmupd 1 [(mk_order 9 COMMIT_REVEAL True 1500 10 100)\<lparr>revealed := True, revealed_price := 1500\<rparr>]
          (commit_phase_orders engine_commit)\<rparr>)
   \<and> revealBid 500 1 9 1501 ''other'' engine_commit =
     (True, engine_commit\<lparr>commit_phase_orders :=
        fmupd 1 [(mk_order 9 COMMIT_REVEAL True 1500 10 100)\<lparr>revealed := True, revealed_price := 1501\<rparr>]
          (commit_phase_orders engine_commit)\<rparr>)
   \<and> commit_hash (mk_order 9 COMMIT_REVEAL True 1500 10 100) = ''c0ffee''"
  by (simp add: revealBid_def engine_commit_eq engine_S1_eq new_engine_def index_or_insert_def
        mk_order_def)

subsection \<open>AMM swaps\<close>

text \<open>
  Claim C8. A swap that leaves \<open>reserve_supply = 0\<close> is to fail as liquidity
  exhaustion before \<open>last_price\<close> is computed. \<open>executeAMMSwap\<close> has no such check:
  on the pool with reserves 2 and 1 a buy of quantity 1 is quoted 1, the supply
  reserve becomes 0, and \<open>reserve_ausd / reserve_supply\<close> divides by zero.
\<close>

theorem swap_draining_supply_divides_by_zero:
  "addLiquidity 1 2 1 engine_S1 = Inr (True, engine_pool21)
   \<and> addOrder 500 (swap_order True 1) engine_pool21 = Inl DivisionByZero"
  by (simp add: addLiquidity_def addOrder_def executeAMMSwap_def getSwapPrice_def
        engine_pool21_def engine_S1_eq new_engine_def index_or_insert_def zero_pool_def
        swap_order_def mk_order_def slot_S1_def Let_def word_sle_eq)

subsection \<open>Validation in addOrder\<close>

text \<open>
  Claim C6, as stated, fails: a LIMIT order with quantity 0 whose \<open>expires\<close> lies
  before \<open>now\<close> is accepted and rests in the bid book.
\<close>

theorem addOrder_accepts_zero_quantity_expired_order:
  "quantity stale_order = 0 \<and> expires stale_order < 500
   \<and> addOrder 500 stale_order engine_S1 =
       Inr (True, engine_S1\<lparr>bid_books := fmupd 1 [stale_order] (bid_books engine_S1),
                           total_orders_processed := 1\<rparr>)"
  by (simp add: addOrder_def addLimitOrder_def stale_order_def engine_S1_eq new_engine_def
        index_or_insert_def mk_order_def slot_S1_def Let_def)

text \<open>
  Claim C6, amended. \<open>addOrder\<close> returns \<open>false\<close> and leaves the engine unchanged when
  the slot is unknown, when the targeting hashes differ, or when \<open>now\<close> is past the
  slot's \<open>end_time\<close>. Quantity and \<open>expires\<close> are not examined: an order of any type
  other than AMM_SWAP that meets the three checks is accepted.
\<close>

theorem addOrder_validation:
  "(fmlookup (ad_slots s) (order_slot_id ord) = None \<longrightarrow> addOrder now ord s = Inr (False, s))
   \<and> (\<forall>slot. fmlookup (ad_slots s) (order_slot_id ord) = Some slot
         \<and> (order_targeting_hash ord \<noteq> targeting_hash slot \<or> now > end_time slot)
       \<longrightarrow> addOrder now ord s = Inr (False, s))
   \<and> (\<forall>slot. fmlookup (ad_slots s) (order_slot_id ord) = Some slot
         \<and> order_targeting_hash ord = targeting_hash slot \<and> now \<le> end_time slot
         \<and> order_type ord \<noteq> AMM_SWAP
       \<longrightarrow> (\<exists>s'. addOrder now ord s = Inr (True, s')))"
  by (cases "order_type ord")
     (auto simp: addOrder_def addLimitOrder_def addCommitRevealOrder_def executeFlashCover_def
        Let_def split: prod.splits)

theorem addOrder_validation_witness:
  "fmlookup (ad_slots engine_S1) (order_slot_id stale_order) = Some slot_S1
   \<and> order_targeting_hash stale_order = targeting_hash slot_S1 \<and> 500 \<le> end_time slot_S1
   \<and> order_type stale_order \<noteq> AMM_SWAP \<and> quantity stale_order = 0 \<and> expires stale_order < 500
   \<and> (\<exists>s'. addOrder 500 stale_order engine_S1 = Inr (True, s'))
   \<and> fmlookup (ad_slots engine_S1) (order_slot_id (stale_order\<lparr>order_slot_id := 99\<rparr>)) = None
   \<and> addOrder 500 (stale_order\<lparr>order_slot_id := 99\<rparr>) engine_S1 = Inr (False, engine_S1)
   \<and> order_targeting_hash (stale_order\<lparr>order_targeting_hash := 8\<rparr>) \<noteq> targeting_hash slot_S1
   \<and> addOrder 500 (stale_order\<lparr>order_targeting_hash := 8\<rparr>) engine_S1 = Inr (False, engine_S1)"
proof -
  have h: "fmlookup (ad_slots engine_S1) (order_slot_id stale_order) = Some slot_S1
   \<and> order_targeting_hash stale_order = targeting_hash slot_S1 \<and> 500 \<le> end_time slot_S1
   \<and> order_type stale_order \<noteq> AMM_SWAP"
    by (simp add: stale_order_def engine_S1_eq new_engine_def mk_order_def slot_S1_def)
  have q: "quantity stale_order = 0 \<and> expires stale_order < 500"
    by (simp add: stale_order_def mk_order_def)
  have a: "\<exists>s'. addOrder 500 stale_order engine_S1 = Inr (True, s')"
    by (rule addOrder_validation [of engine_S1 stale_order 500,
          THEN conjunct2, THEN conjunct2, rule_format, OF h])
  have u: "fmlookup (ad_slots engine_S1) (order_slot_id (stale_order\<lparr>order_slot_id := 99\<rparr>)) = None"
    by (simp add: engine_S1_eq new_engine_def)
  have u': "addOrder 500 (stale_order\<lparr>order_slot_id := 99\<rparr>) engine_S1 = Inr (False, engine_S1)"
    by (rule addOrder_validation [of engine_S1 "stale_order\<lparr>order_slot_id := 99\<rparr>" 500,
          THEN conjunct1, rule_format, OF u])
  have m: "fmlookup (ad_slots engine_S1) (order_slot_id (stale_order\<lparr>order_targeting_hash := 8\<rparr>))
             = Some slot_S1
           \<and> (order_targeting_hash (stale_order\<lparr>order_targeting_hash := 8\<rparr>) \<noteq> targeting_hash slot_S1
              \<or> 500 > end_time slot_S1)"
    by (simp add: stale_order_def engine_S1_eq new_engine_def mk_order_def slot_S1_def)
  have m': "addOrder 500 (stale_order\<lparr>order_targeting_hash := 8\<rparr>) engine_S1 = Inr (False, engine_S1)"
    by (rule addOrder_validation [of engine_S1 "stale_order\<lparr>order_targeting_hash := 8\<rparr>" 500,
          THEN conjunct2, THEN conjunct1, rule_format, OF m])
  have n: "order_targeting_hash (stale_order\<lparr>order_targeting_hash := 8\<rparr>) \<noteq> targeting_hash slot_S1"
    by (simp add: slot_S1_def)
  from h q a u u' n m' show ?thesis by blast
qed

subsection \<open>Immediate matching and the delivered counter\<close>

lemma submit_bid_A: "addOrder 500 bid_A engine_S1 = Inr (True, engine_bid_A)"
  by (simp add: addOrder_def addLimitOrder_def bid_A_def engine_bid_A_def engine_S1_eq new_engine_def
        index_or_insert_def mk_order_def slot_S1_def Let_def)

lemma match_bid_A_ask_A: "match_loop [bid_A] [ask_A] = ([(1, 2, 1000, 10)], [], [])"
  by (simp add: match_loop.simps bid_A_def ask_A_def mk_order_def word_sle_eq)

lemma submit_ask_A: "addOrder 600 ask_A engine_bid_A = Inr (True, engine_filled)"
  by (simp add: addOrder_def addLimitOrder_def tryImmedateMatch_def engine_filled_def
        engine_bid_A_def engine_S1_eq new_engine_def index_or_insert_def slot_S1_def Let_def
        ask_A_def bid_A_def mk_order_def word_sle_eq match_loop.simps)

lemma match_loop_conservation:
  "match_loop bids asks = (fills, bids', asks') \<Longrightarrow>
     sum_list (map fill_quantity fills) + sum_list (map quantity bids') = sum_list (map quantity bids)
     \<and> sum_list (map fill_quantity fills) + sum_list (map quantity asks') = sum_list (map quantity asks)"
proof (induction bids asks arbitrary: fills bids' asks' rule: match_loop.induct)
  case (1 asks)
  then show ?case by (simp add: match_loop.simps)
next
  case (2 b bs)
  then show ?case by (simp add: match_loop.simps)
next
  case (3 b bs a as)
  show ?case
  proof (cases "limit_price a \<le>s limit_price b")
    case False
    with "3.prems" show ?thesis by (simp add: match_loop.simps)
  next
    case True
    let ?m = "min (quantity b) (quantity a)"
    let ?bs = "if quantity b = ?m then bs else b\<lparr>quantity := quantity b - ?m\<rparr> # bs"
    let ?as = "if quantity a = ?m then as else a\<lparr>quantity := quantity a - ?m\<rparr> # as"
    obtain f rb ra where rec: "match_loop ?bs ?as = (f, rb, ra)"
      by (cases "match_loop ?bs ?as") auto
    from "3.prems" True rec
    have out: "fills = (order_id b, order_id a, limit_price a, ?m) # f" "bids' = rb" "asks' = ra"
      by (simp_all add: match_loop.simps)
    from "3.IH" [OF True rec]
    have ih: "sum_list (map fill_quantity f) + sum_list (map quantity rb) = sum_list (map quantity ?bs)"
      "sum_list (map fill_quantity f) + sum_list (map quantity ra) = sum_list (map quantity ?as)"
      by simp_all
    have b: "?m + sum_list (map quantity ?bs) = quantity b + sum_list (map quantity bs)"
      by simp
    have a: "?m + sum_list (map quantity ?as) = quantity a + sum_list (map quantity as)"
      by simp
    have hd: "sum_list (map fill_quantity fills) = ?m + sum_list (map fill_quantity f)"
      by (simp add: out(1)) (simp add: fill_quantity_def)
    have "sum_list (map fill_quantity fills) + sum_list (map quantity bids')
            = ?m + (sum_list (map fill_quantity f) + sum_list (map quantity rb))"
      by (simp only: hd out(2,3) add.assoc)
    also have "\<dots> = ?m + sum_list (map quantity ?bs)"
      by (simp only: ih)
    also have "\<dots> = sum_list (map quantity (b # bs))"
      using b by simp
    finally have B: "sum_list (map fill_quantity fills) + sum_list (map quantity bids')
            = sum_list (map quantity (b # bs))" .
    have "sum_list (map fill_quantity fills) + sum_list (map quantity asks')
            = ?m + (sum_list (map fill_quantity f) + sum_list (map quantity ra))"
      by (simp only: hd out(2,3) add.assoc)
    also have "\<dots> = ?m + sum_list (map quantity ?as)"
      by (simp only: ih)
    also have "\<dots> = sum_list (map quantity (a # as))"
      using a by simp
    finally have A: "sum_list (map fill_quantity fills) + sum_list (map quantity asks')
            = sum_list (map quantity (a # as))" .
    from A B show ?thesis by blast
  qed
qed

lemma match_loop_sorted:
  "match_loop bids asks = (fills, bids', asks') \<Longrightarrow> bids_sorted bids \<Longrightarrow> asks_sorted asks \<Longrightarrow>
     bids_sorted bids' \<and> asks_sorted asks'"
proof (induction bids asks arbitrary: fills bids' asks' rule: match_loop.induct)
  case (1 asks)
  then show ?case by (simp add: bids_sorted_def match_loop.simps)
next
  case (2 b bs)
  then show ?case by (simp add: asks_sorted_def match_loop.simps)
next
  case (3 b bs a as)
  show ?case
  proof (cases "limit_price a \<le>s limit_price b")
    case False
    with "3.prems" show ?thesis by (simp add: match_loop.simps)
  next
    case True
    let ?m = "min (quantity b) (quantity a)"
    let ?bs = "if quantity b = ?m then bs else b\<lparr>quantity := quantity b - ?m\<rparr> # bs"
    let ?as = "if quantity a = ?m then as else a\<lparr>quantity := quantity a - ?m\<rparr> # as"
    obtain f rb ra where rec: "match_loop ?bs ?as = (f, rb, ra)"
      by (cases "match_loop ?bs ?as") auto
    from "3.prems" True rec have out: "bids' = rb" "asks' = ra"
      by (simp_all add: match_loop.simps)
    have sb: "bids_sorted ?bs" using "3.prems"(2) by (simp add: bids_sorted_def)
    have sa: "asks_sorted ?as" using "3.prems"(3) by (simp add: asks_sorted_def)
    from "3.IH" [OF True rec sb sa] show ?thesis by (simp add: out)
  qed
qed

lemma tryImmedateMatch_ad_slots: "ad_slots (tryImmedateMatch sid s) = ad_slots s"
  by (simp add: tryImmedateMatch_def split: prod.splits)

lemma addLimitOrder_ad_slots: "ad_slots (snd (addLimitOrder ord s)) = ad_slots s"
  by (simp add: addLimitOrder_def Let_def tryImmedateMatch_ad_slots split: prod.splits)

lemma executeAMMSwap_ad_slots: "executeAMMSwap ord s = Inr (b, s') \<Longrightarrow> ad_slots s' = ad_slots s"
  by (auto simp: executeAMMSwap_def Let_def split: prod.splits sum.splits if_splits)

lemma addOrder_ad_slots: "addOrder now ord s = Inr (b, s') \<Longrightarrow> ad_slots s' = ad_slots s"
  by (cases "order_type ord")
     (auto simp: addOrder_def addCommitRevealOrder_def executeFlashCover_def
           dest: executeAMMSwap_ad_slots arg_cong [where f = "\<lambda>r. ad_slots (snd r)"]
           simp: addLimitOrder_ad_slots
           split: option.splits if_splits prod.splits)

lemma match_loop_cross:
  assumes "limit_price a \<le>s limit_price b"
  shows "\<exists>f rb ra. match_loop (b # bs) (a # as) =
           ((order_id b, order_id a, limit_price a, min (quantity b) (quantity a)) # f, rb, ra)"
proof -
  let ?m = "min (quantity b) (quantity a)"
  let ?bs = "if quantity b = ?m then bs else b\<lparr>quantity := quantity b - ?m\<rparr> # bs"
  let ?as = "if quantity a = ?m then as else a\<lparr>quantity := quantity a - ?m\<rparr> # as"
  obtain f rb ra where rec: "match_loop ?bs ?as = (f, rb, ra)"
    by (cases "match_loop ?bs ?as") auto
  have "match_loop (b # bs) (a # as) = ((order_id b, order_id a, limit_price a, ?m) # f, rb, ra)"
    by (simp only: match_loop.simps assms if_True rec prod.case)
  then show ?thesis by blast
qed

lemma match_loop_every_fill:
  "match_loop bids asks = (fills, bids', asks') \<Longrightarrow> i < length fills \<Longrightarrow>
     \<exists>b bs a as. books_after i bids asks = (b # bs, a # as)
        \<and> limit_price a \<le>s limit_price b
        \<and> fills ! i = (order_id b, order_id a, limit_price a, min (quantity b) (quantity a))"
proof (induction bids asks arbitrary: fills bids' asks' i rule: match_loop.induct)
  case (1 asks)
  then show ?case by (simp add: match_loop.simps)
next
  case (2 b bs)
  then show ?case by (simp add: match_loop.simps)
next
  case (3 b bs a as)
  show ?case
  proof (cases "limit_price a \<le>s limit_price b")
    case False
    with "3.prems" show ?thesis by (simp add: match_loop.simps)
  next
    case True
    let ?m = "min (quantity b) (quantity a)"
    let ?bs = "if quantity b = ?m then bs else b\<lparr>quantity := quantity b - ?m\<rparr> # bs"
    let ?as = "if quantity a = ?m then as else a\<lparr>quantity := quantity a - ?m\<rparr> # as"
    obtain f rb ra where rec: "match_loop ?bs ?as = (f, rb, ra)"
      by (cases "match_loop ?bs ?as") auto
    from "3.prems"(1) True rec
    have out: "fills = (order_id b, order_id a, limit_price a, ?m) # f"
      by (simp add: match_loop.simps)
    show ?thesis
    proof (cases i)
      case 0
      with True out show ?thesis by simp
    next
      case (Suc j)
      with "3.prems"(2) out have j: "j < length f" by simp
      from "3.IH" [OF True rec j]
      obtain b' bs' a' as' where
        "books_after j ?bs ?as = (b' # bs', a' # as')"
        "limit_price a' \<le>s limit_price b'"
        "f ! j = (order_id b', order_id a', limit_price a', min (quantity b') (quantity a'))"
        by blast
      moreover have "books_after (Suc j) (b # bs) (a # as) = books_after j ?bs ?as"
        using True by simp
      moreover have "fills ! i = f ! j" using Suc out by simp
      ultimately show ?thesis using Suc by (simp only:) blast
    qed
  qed
qed

lemma match_loop_runs_out:
  "match_loop bids asks = (fills, bids', asks') \<Longrightarrow>
     books_after (length fills) bids asks = (bids', asks')
     \<and> \<not> (\<exists>b bs a as. bids' = b # bs \<and> asks' = a # as \<and> limit_price a \<le>s limit_price b)"
proof (induction bids asks arbitrary: fills bids' asks' rule: match_loop.induct)
  case (1 asks)
  then show ?case by (auto simp: match_loop.simps)
next
  case (2 b bs)
  then show ?case by (auto simp: match_loop.simps)
next
  case (3 b bs a as)
  show ?case
  proof (cases "limit_price a \<le>s limit_price b")
    case False
    with "3.prems" show ?thesis by (auto simp: match_loop.simps)
  next
    case True
    let ?m = "min (quantity b) (quantity a)"
    let ?bs = "if quantity b = ?m then bs else b\<lparr>quantity := quantity b - ?m\<rparr> # bs"
    let ?as = "if quantity a = ?m then as else a\<lparr>quantity := quantity a - ?m\<rparr> # as"
    obtain f rb ra where rec: "match_loop ?bs ?as = (f, rb, ra)"
      by (cases "match_loop ?bs ?as") auto
    from "3.prems"(1) True rec
    have out: "fills = (order_id b, order_id a, limit_price a, ?m) # f" "bids' = rb" "asks' = ra"
      by (simp_all add: match_loop.simps)
    have "books_after (Suc (length f)) (b # bs) (a # as) = books_after (length f) ?bs ?as"
      using True by simp
    with "3.IH" [OF True rec] show ?thesis
      by (simp only: out list.size length_Cons) simp
  qed
qed

lemma two_fills:
  "match_loop [bid_big, bid_small] [ask_wide]
     = ([(41, 43, 1000, 10), (42, 43, 1000, 2)], [bid_small\<lparr>quantity := 3\<rparr>], [])"
  by (simp add: match_loop.simps bid_big_def bid_small_def ask_wide_def mk_order_def word_sle_eq)

lemma two_fills_books:
  "books_after (Suc 0) [bid_big, bid_small] [ask_wide] = ([bid_small], [ask_wide\<lparr>quantity := 2\<rparr>])"
  by (simp add: bid_big_def bid_small_def ask_wide_def mk_order_def word_sle_eq)

text \<open>
  Claim C2, as stated, fails. On the slot of capacity 5 with \<open>delivered = 0\<close>, a resting
  bid of quantity 10 and a crossing MARKET ask of quantity 10 produce one fill of
  quantity 10: it is not truncated to the remaining capacity, and the slot still has
  \<open>delivered = 0\<close> afterwards.
\<close>

theorem fill_neither_truncated_nor_delivered:
  "addOrder 500 bid_A engine_S1 = Inr (True, engine_bid_A)
   \<and> addOrder 600 ask_A engine_bid_A = Inr (True, engine_filled)
   \<and> match_loop [bid_A] [ask_A] = ([(1, 2, 1000, 10)], [], [])
   \<and> fmlookup (ad_slots engine_bid_A) 1 = Some slot_S1
   \<and> fmlookup (ad_slots engine_filled) 1 = Some slot_S1
   \<and> delivered slot_S1 = 0 \<and> max_impressions slot_S1 = 5"
  using submit_bid_A match_bid_A_ask_A submit_ask_A
  by (simp add: engine_bid_A_def engine_filled_def engine_S1_eq new_engine_def)
     (simp add: slot_S1_def)

text \<open>
  Claim C2, amended. The immediate matcher never touches the slot registry, so no
  submission changes any slot's \<open>delivered\<close> (and \<open>delivered \<le> max_impressions\<close> is
  kept exactly where it held at registration). Every fill of a run of the matcher is
  between the heads of the two books as they stand at that iteration, which cross, at
  the ask's price and with the quantity \<open>min(best_bid.quantity, best_ask.quantity)\<close>,
  untruncated; the run ends only when the heads no longer cross. The sum of the fill
  quantities of a run equals the quantity taken off the bid book and the quantity
  taken off the ask book (in 64-bit arithmetic).
\<close>

theorem immediate_match_conserves_book_quantity:
  "ad_slots (tryImmedateMatch sid s) = ad_slots s
   \<and> (\<forall>accepted s'. addOrder now ord s = Inr (accepted, s') \<longrightarrow> ad_slots s' = ad_slots s)
   \<and> (\<forall>fills bids' asks'. match_loop bids asks = (fills, bids', asks') \<longrightarrow>
         sum_list (map fill_quantity fills)
           = sum_list (map quantity bids) - sum_list (map quantity bids')
         \<and> sum_list (map fill_quantity fills)
           = sum_list (map quantity asks) - sum_list (map quantity asks')
         \<and> (\<forall>i < length fills.
               \<exists>b bs a as. books_after i bids asks = (b # bs, a # as)
                 \<and> limit_price a \<le>s limit_price b
                 \<and> fills ! i
                     = (order_id b, order_id a, limit_price a, min (quantity b) (quantity a)))
         \<and> books_after (length fills) bids asks = (bids', asks')
         \<and> \<not> (\<exists>b bs a as. bids' = b # bs \<and> asks' = a # as
                 \<and> limit_price a \<le>s limit_price b))"
proof -
  have run: "\<forall>fills bids' asks'. match_loop bids asks = (fills, bids', asks') \<longrightarrow>
         sum_list (map fill_quantity fills)
           = sum_list (map quantity bids) - sum_list (map quantity bids')
         \<and> sum_list (map fill_quantity fills)
           = sum_list (map quantity asks) - sum_list (map quantity asks')
         \<and> (\<forall>i < length fills.
               \<exists>b bs a as. books_after i bids asks = (b # bs, a # as)
                 \<and> limit_price a \<le>s limit_price b
                 \<and> fills ! i
                     = (order_id b, order_id a, limit_price a, min (quantity b) (quantity a)))
         \<and> books_after (length fills) bids asks = (bids', asks')
         \<and> \<not> (\<exists>b bs a as. bids' = b # bs \<and> asks' = a # as
                 \<and> limit_price a \<le>s limit_price b)"
  proof (intro allI impI)
    fix fills bids' asks'
    assume m: "match_loop bids asks = (fills, bids', asks')"
    from match_loop_conservation [OF m]
    have "sum_list (map fill_quantity fills) + sum_list (map quantity bids')
            = sum_list (map quantity bids)"
      and "sum_list (map fill_quantity fills) + sum_list (map quantity asks')
            = sum_list (map quantity asks)"
      by simp_all
    then have A: "sum_list (map fill_quantity fills)
           = sum_list (map quantity bids) - sum_list (map quantity bids')"
      and B: "sum_list (map fill_quantity fills)
           = sum_list (map quantity asks) - sum_list (map quantity asks')"
      by (simp_all add: eq_diff_eq)
    have C: "\<forall>i < length fills.
               \<exists>b bs a as. books_after i bids asks = (b # bs, a # as)
                 \<and> limit_price a \<le>s limit_price b
                 \<and> fills ! i
                     = (order_id b, order_id a, limit_price a, min (quantity b) (quantity a))"
    proof (intro allI impI)
      fix i assume "i < length fills"
      then show "\<exists>b bs a as. books_after i bids asks = (b # bs, a # as)
                 \<and> limit_price a \<le>s limit_price b
                 \<and> fills ! i
                     = (order_id b, order_id a, limit_price a, min (quantity b) (quantity a))"
        by (rule match_loop_every_fill [OF m])
    qed
    note D = match_loop_runs_out [OF m, THEN conjunct1]
    note E = match_loop_runs_out [OF m, THEN conjunct2]
    show "sum_list (map fill_quantity fills)
           = sum_list (map quantity bids) - sum_list (map quantity bids')
         \<and> sum_list (map fill_quantity fills)
           = sum_list (map quantity asks) - sum_list (map quantity asks')
         \<and> (\<forall>i < length fills.
               \<exists>b bs a as. books_after i bids asks = (b # bs, a # as)
                 \<and> limit_price a \<le>s limit_price b
                 \<and> fills ! i
                     = (order_id b, order_id a, limit_price a, min (quantity b) (quantity a)))
         \<and> books_after (length fills) bids asks = (bids', asks')
         \<and> \<not> (\<exists>b bs a as. bids' = b # bs \<and> asks' = a # as
                 \<and> limit_price a \<le>s limit_price b)"
      using A B C D E by (intro conjI)
  qed
  have reg: "\<forall>accepted s'. addOrder now ord s = Inr (accepted, s') \<longrightarrow> ad_slots s' = ad_slots s"
    by (intro allI impI) (rule addOrder_ad_slots)
  from tryImmedateMatch_ad_slots [of sid s] reg run show ?thesis
    by (intro conjI)
qed

theorem immediate_match_conserves_book_quantity_witness:
  "addOrder 600 ask_A engine_bid_A = Inr (True, engine_filled)
   \<and> ad_slots engine_filled = ad_slots engine_bid_A
   \<and> match_loop [bid_big, bid_small] [ask_wide]
       = ([(41, 43, 1000, 10), (42, 43, 1000, 2)], [bid_small\<lparr>quantity := 3\<rparr>], [])
   \<and> sum_list (map fill_quantity [(41, 43, 1000, 10), (42, 43, 1000, 2)])
       = sum_list (map quantity [bid_big, bid_small])
         - sum_list (map quantity [bid_small\<lparr>quantity := 3\<rparr>])
   \<and> Suc 0 < length [(41, 43, 1000, 10), (42, 43, 1000, 2) :: fill]
   \<and> (\<exists>b bs a as. books_after (Suc 0) [bid_big, bid_small] [ask_wide] = (b # bs, a # as)
         \<and> limit_price a \<le>s limit_price b
         \<and> [(41, 43, 1000, 10), (42, 43, 1000, 2)] ! Suc 0
             = (order_id b, order_id a, limit_price a, min (quantity b) (quantity a)))
   \<and> books_after (Suc 0) [bid_big, bid_small] [ask_wide]
       = ([bid_small], [ask_wide\<lparr>quantity := 2\<rparr>])
   \<and> min (quantity bid_small) (quantity (ask_wide\<lparr>quantity := 2\<rparr>)) = 2
   \<and> books_after (length [(41, 43, 1000, 10), (42, 43, 1000, 2) :: fill])
         [bid_big, bid_small] [ask_wide]
       = ([bid_small\<lparr>quantity := 3\<rparr>], [])"
proof -
  note T = immediate_match_conserves_book_quantity
      [of 1 engine_bid_A 600 ask_A "[bid_big, bid_small]" "[ask_wide]"]
  note R = T [THEN conjunct2, THEN conjunct2, rule_format, OF two_fills]
  have r: "ad_slots engine_filled = ad_slots engine_bid_A"
    by (rule T [THEN conjunct2, THEN conjunct1, rule_format, OF submit_ask_A])
  have q: "sum_list (map fill_quantity [(41, 43, 1000, 10), (42, 43, 1000, 2)])
       = sum_list (map quantity [bid_big, bid_small])
         - sum_list (map quantity [bid_small\<lparr>quantity := 3\<rparr>])"
    by (rule R [THEN conjunct1])
  have l: "Suc 0 < length [(41, 43, 1000, 10), (42, 43, 1000, 2) :: fill]"
    by simp
  have e: "\<exists>b bs a as. books_after (Suc 0) [bid_big, bid_small] [ask_wide] = (b # bs, a # as)
         \<and> limit_price a \<le>s limit_price b
         \<and> [(41, 43, 1000, 10), (42, 43, 1000, 2)] ! Suc 0
             = (order_id b, order_id a, limit_price a, min (quantity b) (quantity a))"
    by (rule R [THEN conjunct2, THEN conjunct2, THEN conjunct1, rule_format, OF l])
  have m: "min (quantity bid_small) (quantity (ask_wide\<lparr>quantity := 2\<rparr>)) = 2"
    by (simp add: bid_small_def mk_order_def)
  have d: "books_after (length [(41, 43, 1000, 10), (42, 43, 1000, 2) :: fill])
         [bid_big, bid_small] [ask_wide]
       = ([bid_small\<lparr>quantity := 3\<rparr>], [])"
    by (rule R [THEN conjunct2, THEN conjunct2, THEN conjunct2, THEN conjunct1])
  show ?thesis
    by (intro conjI) (fact submit_ask_A r two_fills q l e two_fills_books m d)+
qed

subsection \<open>Order of the books\<close>

lemma insert_by_key:
  fixes f :: "'a \<Rightarrow> 'k::linorder"
  shows "insert_by (\<lambda>a b. f a < f b) x ys = insort_key f x ys"
  by (induction ys) (auto simp: not_less)

lemma sort_by_key:
  fixes f :: "'a \<Rightarrow> 'k::linorder"
  shows "sort_by (\<lambda>a b. f a < f b) xs = sort_key f xs"
  by (induction xs) (simp_all add: insert_by_key)

lemma bid_book_sort:
  fixes xs :: "Order list"
  shows "sort_by (\<lambda>a b. limit_price b <s limit_price a) xs = sort_key (\<lambda>x. - sint (limit_price x)) xs"
proof -
  have "sort_by (\<lambda>a b :: Order. - sint (limit_price a) < - sint (limit_price b)) xs
          = sort_key (\<lambda>x. - sint (limit_price x)) xs"
    by (rule sort_by_key)
  then show ?thesis by (simp add: word_sless_alt)
qed

lemma ask_book_sort:
  fixes xs :: "Order list"
  shows "sort_by (\<lambda>a b. limit_price a <s limit_price b) xs = sort_key (\<lambda>x. sint (limit_price x)) xs"
proof -
  have "sort_by (\<lambda>a b :: Order. sint (limit_price a) < sint (limit_price b)) xs
          = sort_key (\<lambda>x. sint (limit_price x)) xs"
    by (rule sort_by_key)
  then show ?thesis by (simp add: word_sless_alt)
qed

lemma bids_sorted_sort:
  fixes xs :: "Order list"
  shows "bids_sorted (sort_by (\<lambda>a b. limit_price b <s limit_price a) xs)"
proof -
  have "sorted (map (\<lambda>x. - sint (limit_price x)) (sort_key (\<lambda>x. - sint (limit_price x)) xs))"
    by (rule sorted_sort_key)
  then show ?thesis
    by (simp add: bid_book_sort bids_sorted_def sorted_map word_sle_eq)
qed

lemma asks_sorted_sort:
  fixes xs :: "Order list"
  shows "asks_sorted (sort_by (\<lambda>a b. limit_price a <s limit_price b) xs)"
proof -
  have "sorted (map (\<lambda>x. sint (limit_price x)) (sort_key (\<lambda>x. sint (limit_price x)) xs))"
    by (rule sorted_sort_key)
  then show ?thesis
    by (simp add: ask_book_sort asks_sorted_def sorted_map word_sle_eq)
qed

lemma bids_sorted_Nil: "bids_sorted []" by (simp add: bids_sorted_def)

lemma asks_sorted_Nil: "asks_sorted []" by (simp add: asks_sorted_def)

lemma tryImmedateMatch_sorted:
  assumes "books_sorted s"
  shows "books_sorted (tryImmedateMatch sid s)"
proof -
  obtain bids m1 where b: "index_or_insert [] sid (bid_books s) = (bids, m1)"
    by (cases "index_or_insert [] sid (bid_books s)") auto
  obtain asks m2 where a: "index_or_insert [] sid (ask_books s) = (asks, m2)"
    by (cases "index_or_insert [] sid (ask_books s)") auto
  obtain fills bids' asks' where m: "match_loop bids asks = (fills, bids', asks')"
    by (cases "match_loop bids asks") auto
  have sb: "bids_sorted bids"
    using assms b by (auto simp: books_sorted_def index_or_insert_def bids_sorted_Nil split: option.splits)
  have sa: "asks_sorted asks"
    using assms a by (auto simp: books_sorted_def index_or_insert_def asks_sorted_Nil split: option.splits)
  have m1: "\<forall>k v. fmlookup m1 k = Some v \<longrightarrow> bids_sorted v"
    using assms b by (auto simp: books_sorted_def index_or_insert_def bids_sorted_Nil split: option.splits if_splits)
  have m2: "\<forall>k v. fmlookup m2 k = Some v \<longrightarrow> asks_sorted v"
    using assms a by (auto simp: books_sorted_def index_or_insert_def asks_sorted_Nil split: option.splits if_splits)
  from match_loop_sorted [OF m sb sa] have r: "bids_sorted bids'" "asks_sorted asks'"
    by simp_all
  have eq: "tryImmedateMatch sid s =
        s\<lparr>bid_books := fmupd sid bids' m1, ask_books := fmupd sid asks' m2,
          total_matches := total_matches s + of_nat (length fills)\<rparr>"
    by (simp add: tryImmedateMatch_def a b m)
  show ?thesis
    using m1 m2 r by (auto simp: eq books_sorted_def split: if_splits)
qed

lemma addLimitOrder_sorted:
  assumes "books_sorted s"
  shows "books_sorted (snd (addLimitOrder ord s))"
proof -
  let ?sid = "order_slot_id ord"
  obtain book m1 where b: "index_or_insert [] ?sid (bid_books s) = (book, m1)"
    by (cases "index_or_insert [] ?sid (bid_books s)") auto
  obtain book2 m2 where a: "index_or_insert [] ?sid (ask_books s) = (book2, m2)"
    by (cases "index_or_insert [] ?sid (ask_books s)") auto
  have m1: "\<forall>k v. fmlookup m1 k = Some v \<longrightarrow> bids_sorted v"
    using assms b by (auto simp: books_sorted_def index_or_insert_def bids_sorted_Nil split: option.splits if_splits)
  have m2: "\<forall>k v. fmlookup m2 k = Some v \<longrightarrow> asks_sorted v"
    using assms a by (auto simp: books_sorted_def index_or_insert_def asks_sorted_Nil split: option.splits if_splits)
  let ?s1 = "if is_buy ord then
               s\<lparr>bid_books := fmupd ?sid (sort_by (\<lambda>a b. limit_price b <s limit_price a) (book @ [ord])) m1\<rparr>
             else
               s\<lparr>ask_books := fmupd ?sid (sort_by (\<lambda>a b. limit_price a <s limit_price b) (book2 @ [ord])) m2\<rparr>"
  have s1: "books_sorted ?s1"
    using assms m1 m2 bids_sorted_sort asks_sorted_sort
    by (auto simp: books_sorted_def split: if_splits)
  let ?s2 = "?s1\<lparr>total_orders_processed := total_orders_processed ?s1 + 1\<rparr>"
  have s2: "books_sorted ?s2"
    using s1 by (simp add: books_sorted_def)
  have eq: "snd (addLimitOrder ord s) = (if order_type ord = MARKET then tryImmedateMatch ?sid ?s2 else ?s2)"
    by (simp add: addLimitOrder_def Let_def a b)
  show ?thesis
    unfolding eq using s2 tryImmedateMatch_sorted [OF s2] by (simp del: tryImmedateMatch_def)
qed

lemma index_or_insert_sorted:
  assumes "\<forall>k v. fmlookup m k = Some v \<longrightarrow> P v" and "P []"
    and "index_or_insert [] sid m = (book, m1)"
  shows "P book \<and> (\<forall>k v. fmlookup m1 k = Some v \<longrightarrow> P v)"
  using assms by (auto simp: index_or_insert_def split: option.splits if_splits)

lemma runBatchAuction_sorted:
  assumes "books_sorted s"
  shows "books_sorted (snd (runBatchAuction sid s))"
proof -
  obtain bids m1 where b: "index_or_insert [] sid (bid_books s) = (bids, m1)"
    by (cases "index_or_insert [] sid (bid_books s)") auto
  obtain asks m2 where a: "index_or_insert [] sid (ask_books s) = (asks, m2)"
    by (cases "index_or_insert [] sid (ask_books s)") auto
  have m1: "\<forall>k v. fmlookup m1 k = Some v \<longrightarrow> bids_sorted v"
    using index_or_insert_sorted [where P = bids_sorted, OF _ bids_sorted_Nil b] assms
    by (simp add: books_sorted_def)
  have m2: "\<forall>k v. fmlookup m2 k = Some v \<longrightarrow> asks_sorted v"
    using index_or_insert_sorted [where P = asks_sorted, OF _ asks_sorted_Nil a] assms
    by (simp add: books_sorted_def)
  have "bid_books (snd (runBatchAuction sid s)) = m1 \<and> ask_books (snd (runBatchAuction sid s)) = m2"
    by (simp add: runBatchAuction_def a b Let_def)
  then show ?thesis using m1 m2 by (simp add: books_sorted_def)
qed

lemma registerAdSlot_sorted:
  assumes "books_sorted s"
  shows "books_sorted (snd (registerAdSlot slot s))"
  using assms
  by (auto simp: registerAdSlot_def books_sorted_def bids_sorted_Nil asks_sorted_Nil split: if_splits)

lemma executeAMMSwap_books:
  "executeAMMSwap ord s = Inr (b, s') \<Longrightarrow> bid_books s' = bid_books s \<and> ask_books s' = ask_books s"
  by (auto simp: executeAMMSwap_def Let_def split: prod.splits sum.splits if_splits)

lemma addOrder_sorted:
  assumes "books_sorted s" and "addOrder now ord s = Inr (accepted, s')"
  shows "books_sorted s'"
proof (cases "fmlookup (ad_slots s) (order_slot_id ord)")
  case None
  with assms(2) have "s' = s" by (simp add: addOrder_def)
  with assms(1) show ?thesis by simp
next
  case (Some slot)
  show ?thesis
  proof (cases "order_targeting_hash ord \<noteq> targeting_hash slot \<or> now > end_time slot")
    case True
    with Some assms(2) have "s' = s" by (auto simp: addOrder_def split: if_splits)
    with assms(1) show ?thesis by simp
  next
    case False
    with Some assms(2) have routed:
      "(case order_type ord of
          LIMIT \<Rightarrow> Inr (addLimitOrder ord s)
        | MARKET \<Rightarrow> Inr (addLimitOrder ord s)
        | COMMIT_REVEAL \<Rightarrow> Inr (addCommitRevealOrder ord s)
        | AMM_SWAP \<Rightarrow> executeAMMSwap ord s
        | FLASH_COVER \<Rightarrow> Inr (executeFlashCover ord s)) = Inr (accepted, s')"
      by (simp add: addOrder_def)
    show ?thesis
    proof (cases "order_type ord")
      case LIMIT
      with routed have "s' = snd (addLimitOrder ord s)" by simp
      then show ?thesis using addLimitOrder_sorted [OF assms(1)] by simp
    next
      case MARKET
      with routed have "s' = snd (addLimitOrder ord s)" by simp
      then show ?thesis using addLimitOrder_sorted [OF assms(1)] by simp
    next
      case COMMIT_REVEAL
      with routed have "s' = snd (addCommitRevealOrder ord s)" by simp
      then have "bid_books s' = bid_books s \<and> ask_books s' = ask_books s"
        by (simp add: addCommitRevealOrder_def split: prod.splits)
      with assms(1) show ?thesis by (simp add: books_sorted_def)
    next
      case AMM_SWAP
      with routed have "executeAMMSwap ord s = Inr (accepted, s')" by simp
      from executeAMMSwap_books [OF this] assms(1) show ?thesis
        by (simp add: books_sorted_def)
    next
      case FLASH_COVER
      with routed assms(1) show ?thesis by (simp add: executeFlashCover_def)
    qed
  qed
qed

lemma submit_bid_late: "addOrder 500 bid_late engine_S1 = Inr (True, engine_bid_late)"
  by (simp add: addOrder_def addLimitOrder_def bid_late_def engine_bid_late_def engine_S1_eq
        new_engine_def index_or_insert_def mk_order_def slot_S1_def Let_def)

lemma submit_bid_early: "addOrder 500 bid_early engine_bid_late = Inr (True, engine_two_bids)"
  by (simp add: addOrder_def addLimitOrder_def bid_late_def bid_early_def engine_bid_late_def
        engine_two_bids_def engine_S1_eq new_engine_def index_or_insert_def mk_order_def
        slot_S1_def Let_def word_sless_alt)

text \<open>
  Claim C7, as stated, fails on the tie-break. Two bids at the same price, the one
  created later submitted first: the book keeps them in submission order, so the order
  created earlier stands behind the one created later.
\<close>

theorem bid_book_ties_not_by_created:
  "addOrder 500 bid_late engine_S1 = Inr (True, engine_bid_late)
   \<and> addOrder 500 bid_early engine_bid_late = Inr (True, engine_two_bids)
   \<and> fmlookup (bid_books engine_two_bids) 1 = Some [bid_late, bid_early]
   \<and> limit_price bid_late = limit_price bid_early
   \<and> created bid_early < created bid_late"
  using submit_bid_late submit_bid_early
  by (simp add: engine_two_bids_def bid_late_def bid_early_def mk_order_def)

text \<open>
  Claim C7, amended. The books are sorted by price alone: in every bid book the limit
  prices are non-increasing and in every ask book non-decreasing (signed comparison).
  This holds for the new engine and is kept by \<open>registerAdSlot\<close>, by every \<open>addOrder\<close>
  (insertion, and the removals and decrements of the immediate matcher) and by
  \<open>runBatchAuction\<close>. Nothing is said about the order among equal prices.
\<close>

theorem books_stay_price_sorted:
  "books_sorted new_engine
   \<and> (books_sorted s \<longrightarrow> books_sorted (snd (registerAdSlot slot s)))
   \<and> (books_sorted s \<longrightarrow>
        (\<forall>accepted s'. addOrder now ord s = Inr (accepted, s') \<longrightarrow> books_sorted s'))
   \<and> (books_sorted s \<longrightarrow> books_sorted (snd (runBatchAuction sid s)))"
proof -
  have init: "books_sorted new_engine"
    by (simp add: books_sorted_def new_engine_def)
  have add: "books_sorted s \<longrightarrow>
        (\<forall>accepted s'. addOrder now ord s = Inr (accepted, s') \<longrightarrow> books_sorted s')"
    by (intro allI impI) (rule addOrder_sorted)
  have reg: "books_sorted s \<longrightarrow> books_sorted (snd (registerAdSlot slot s))"
    by (rule impI) (rule registerAdSlot_sorted)
  have batch: "books_sorted s \<longrightarrow> books_sorted (snd (runBatchAuction sid s))"
    by (rule impI) (rule runBatchAuction_sorted)
  from init reg add batch show ?thesis
    by (intro conjI)
qed

theorem books_stay_price_sorted_witness:
  "books_sorted new_engine
   \<and> books_sorted engine_S1
   \<and> addOrder 500 bid_late engine_S1 = Inr (True, engine_bid_late)
   \<and> books_sorted engine_bid_late
   \<and> addOrder 500 bid_early engine_bid_late = Inr (True, engine_two_bids)
   \<and> books_sorted engine_two_bids
   \<and> books_sorted (snd (runBatchAuction 1 engine_two_bids))
   \<and> fmlookup (bid_books engine_two_bids) 1 = Some [bid_late, bid_early]
   \<and> bids_sorted [bid_late, bid_early]"
proof -
  have s0: "books_sorted new_engine"
    by (rule books_stay_price_sorted [THEN conjunct1])
  have s1: "books_sorted engine_S1"
    unfolding engine_S1_def
    by (rule books_stay_price_sorted [THEN conjunct2, THEN conjunct1, rule_format, OF s0])
  have s2: "books_sorted engine_bid_late"
    by (rule books_stay_price_sorted
          [THEN conjunct2, THEN conjunct2, THEN conjunct1, rule_format, OF s1 submit_bid_late])
  have s3: "books_sorted engine_two_bids"
    by (rule books_stay_price_sorted
          [THEN conjunct2, THEN conjunct2, THEN conjunct1, rule_format, OF s2 submit_bid_early])
  have s4: "books_sorted (snd (runBatchAuction 1 engine_two_bids))"
    by (rule books_stay_price_sorted
          [THEN conjunct2, THEN conjunct2, THEN conjunct2, rule_format, OF s3])
  have l: "fmlookup (bid_books engine_two_bids) 1 = Some [bid_late, bid_early]"
    by (simp add: engine_two_bids_def)
  from s3 l have b: "bids_sorted [bid_late, bid_early]"
    by (simp add: books_sorted_def)
  show ?thesis
    by (intro conjI) (fact s0 s1 submit_bid_late s2 submit_bid_early s3 s4 l b)+
qed

subsection \<open>Batch auction\<close>

lemma mset_insert_by: "mset (insert_by lt x ys) = add_mset x (mset ys)"
  by (induction ys) simp_all

lemma mset_sort_by: "mset (sort_by lt xs) = mset xs"
  by (induction xs) (simp_all add: mset_insert_by)

lemma length_sort_by: "length (sort_by lt xs) = length xs"
  using mset_sort_by [of lt xs] by (rule mset_eq_length)

lemma set_sort_by: "set (sort_by lt xs) = set xs"
  using mset_sort_by [of lt xs] by (rule mset_eq_setD)

lemma first_match_fst:
  "map fst (first_match bid asks) =
     (if \<exists>ask \<in> set asks. limit_price ask \<le>s limit_price bid
                          \<and> order_targeting_hash bid = order_targeting_hash ask
      then [order_id bid] else [])"
proof (induction asks)
  case Nil
  show ?case by simp
next
  case (Cons a asks)
  show ?case
  proof (cases "limit_price a \<le>s limit_price bid
                \<and> order_targeting_hash bid = order_targeting_hash a")
    case True
    then show ?thesis by auto
  next
    case False
    then have "first_match bid (a # asks) = first_match bid asks" by auto
    moreover from False have
      "(\<exists>ask \<in> set (a # asks). limit_price ask \<le>s limit_price bid
                          \<and> order_targeting_hash bid = order_targeting_hash ask)
       = (\<exists>ask \<in> set asks. limit_price ask \<le>s limit_price bid
                          \<and> order_targeting_hash bid = order_targeting_hash ask)"
      by auto
    ultimately show ?thesis using Cons.IH by (simp only:)
  qed
qed

lemma mset_match_bids:
  "mset (match_bids bids asks) = (\<Sum>b\<in>#mset bids. mset (first_match b asks))"
  by (induction bids) simp_all

lemma mset_fst_match_bids:
  "mset (map fst (match_bids bids asks)) = (\<Sum>b\<in>#mset bids. mset (map fst (first_match b asks)))"
  by (induction bids) simp_all

lemma match_bids_perm:
  assumes "mset bids = mset bids'"
  shows "mset (match_bids bids asks) = mset (match_bids bids' asks)"
  by (simp only: mset_match_bids assms)

lemma match_bids_fst_perm:
  assumes "mset bids = mset bids'" and "set asks = set asks'"
  shows "mset (map fst (match_bids bids asks)) = mset (map fst (match_bids bids' asks'))"
proof -
  have "\<And>b. map fst (first_match b asks) = map fst (first_match b asks')"
    by (simp only: first_match_fst assms(2))
  then show ?thesis
    by (simp only: mset_fst_match_bids assms(1))
qed

lemma match_bids_no_asks: "match_bids bids [] = []"
  by (induction bids) simp_all

lemma runBatchAuction_matches:
  assumes "fmlookup (bid_books s) sid = Some bids" and "fmlookup (ask_books s) sid = Some asks"
  shows "matches (fst (runBatchAuction sid s)) =
           match_bids (sort_by (\<lambda>a b. priority b < priority a) bids)
                      (sort_by (\<lambda>a b. priority a < priority b) asks)"
    and "clearing_prices (fst (runBatchAuction sid s)) =
           replicate (length (matches (fst (runBatchAuction sid s)))) 0"
  using assms
  by (auto simp: runBatchAuction_def index_or_insert_def Let_def matchOrdersGPU_def
        length_sort_by calculateClearingPrices_def match_bids_no_asks map_replicate_const)

lemma engine_books_lookup:
  "fmlookup (bid_books (engine_books bids asks n)) 1 = Some bids"
  "fmlookup (ask_books (engine_books bids asks n)) 1 = Some asks"
  by (simp_all add: engine_books_def)

lemma submit_bid_S1:
  "addOrder 500 batch_bid engine_S1 = Inr (True, engine_books [batch_bid] [] 1)"
  by (simp add: addOrder_def addLimitOrder_def batch_bid_def engine_books_def engine_S1_eq
        new_engine_def index_or_insert_def mk_order_def slot_S1_def Let_def)

lemma submit_first_ask:
  assumes "a = ask_x \<or> a = ask_y \<or> a = ask_z"
  shows "addOrder 500 a (engine_books [batch_bid] [] 1) = Inr (True, engine_books [batch_bid] [a] 2)"
  using assms
  by (auto simp: addOrder_def addLimitOrder_def ask_x_def ask_y_def ask_z_def engine_books_def
        engine_S1_eq new_engine_def index_or_insert_def mk_order_def slot_S1_def Let_def)

lemma submit_second_ask:
  assumes "a = ask_x \<or> a = ask_y \<or> a = ask_z" and "b = ask_x \<or> b = ask_y \<or> b = ask_z"
  shows "addOrder 500 b (engine_books [batch_bid] [a] 2) = Inr (True, engine_books [batch_bid] [a, b] 3)"
  using assms
  by (auto simp: addOrder_def addLimitOrder_def ask_x_def ask_y_def ask_z_def engine_books_def
        engine_S1_eq new_engine_def index_or_insert_def mk_order_def slot_S1_def Let_def
        word_sless_alt)

lemma batch_xy:
  "matches (fst (runBatchAuction 1 (engine_books [batch_bid] [ask_x, ask_y] 3))) = [(30, 31)]"
  by (simp add: runBatchAuction_matches [OF engine_books_lookup] priority_def
        batch_bid_def ask_x_def ask_y_def mk_order_def word_sle_eq)

lemma batch_yx:
  "matches (fst (runBatchAuction 1 (engine_books [batch_bid] [ask_y, ask_x] 3))) = [(30, 32)]"
  by (simp add: runBatchAuction_matches [OF engine_books_lookup] priority_def
        batch_bid_def ask_x_def ask_y_def mk_order_def word_sle_eq)

text \<open>
  Claim C5, as stated, fails. One bid and two asks at the same price with the same
  \<open>created\<close> tick, so with the same \<open>priority()\<close>: submitted as x then y the batch
  matches the bid with x, submitted as y then x it matches the bid with y.
\<close>

theorem batch_result_depends_on_arrival:
  "addOrder 500 batch_bid engine_S1 = Inr (True, engine_books [batch_bid] [] 1)
   \<and> addOrder 500 ask_x (engine_books [batch_bid] [] 1) = Inr (True, engine_books [batch_bid] [ask_x] 2)
   \<and> addOrder 500 ask_y (engine_books [batch_bid] [ask_x] 2)
       = Inr (True, engine_books [batch_bid] [ask_x, ask_y] 3)
   \<and> addOrder 500 ask_y (engine_books [batch_bid] [] 1) = Inr (True, engine_books [batch_bid] [ask_y] 2)
   \<and> addOrder 500 ask_x (engine_books [batch_bid] [ask_y] 2)
       = Inr (True, engine_books [batch_bid] [ask_y, ask_x] 3)
   \<and> matches (fst (runBatchAuction 1 (engine_books [batch_bid] [ask_x, ask_y] 3))) = [(30, 31)]
   \<and> matches (fst (runBatchAuction 1 (engine_books [batch_bid] [ask_y, ask_x] 3))) = [(30, 32)]"
  by (intro conjI submit_bid_S1 submit_first_ask submit_second_ask batch_xy batch_yx) simp_all

lemma ask_sort_unique:
  fixes asks asks' :: "Order list"
  assumes "mset asks = mset asks'" and "inj_on priority (set asks)"
  shows "sort_by (\<lambda>a b. priority a < priority b) asks
           = sort_by (\<lambda>a b. priority a < priority b) asks'"
proof -
  have "sort_key priority asks = sort_key priority asks'"
  proof (rule sort_key_inj_key_eq [OF _ assms(2)])
    show "mset asks = mset (sort_key priority asks')" using assms(1) by simp
    show "sorted (map priority (sort_key priority asks'))" by (rule sorted_sort_key)
  qed
  then show ?thesis by (simp only: sort_by_key)
qed

text \<open>
  Claim C5, amended. For two engines whose books for the slot hold the same multisets
  of bids and of asks in any order, \<open>runBatchAuction\<close> returns the same clearing prices
  (one placeholder 0 per match) and the same multiset of matched bid ids; when the
  asks have pairwise distinct \<open>priority()\<close> keys it also returns the same multiset of
  (bid id, ask id) pairs.
\<close>

theorem batch_auction_permutation:
  assumes "fmlookup (bid_books s) sid = Some bids" and "fmlookup (ask_books s) sid = Some asks"
    and "fmlookup (bid_books s') sid = Some bids'" and "fmlookup (ask_books s') sid = Some asks'"
    and "mset bids = mset bids'" and "mset asks = mset asks'"
  shows "clearing_prices (fst (runBatchAuction sid s)) = clearing_prices (fst (runBatchAuction sid s'))
         \<and> mset (map fst (matches (fst (runBatchAuction sid s))))
             = mset (map fst (matches (fst (runBatchAuction sid s'))))
         \<and> (inj_on priority (set asks) \<longrightarrow>
              mset (matches (fst (runBatchAuction sid s)))
                = mset (matches (fst (runBatchAuction sid s'))))"
proof -
  let ?gt = "\<lambda>a b :: Order. priority b < priority a"
  let ?lt = "\<lambda>a b :: Order. priority a < priority b"
  let ?ms = "matches (fst (runBatchAuction sid s))"
  let ?ms' = "matches (fst (runBatchAuction sid s'))"
  have m: "?ms = match_bids (sort_by ?gt bids) (sort_by ?lt asks)"
    by (rule runBatchAuction_matches(1) [OF assms(1,2)])
  have m': "?ms' = match_bids (sort_by ?gt bids') (sort_by ?lt asks')"
    by (rule runBatchAuction_matches(1) [OF assms(3,4)])
  have pb: "mset (sort_by ?gt bids) = mset (sort_by ?gt bids')"
    by (simp only: mset_sort_by assms(5))
  have sa: "set (sort_by ?lt asks) = set (sort_by ?lt asks')"
    using mset_eq_setD [OF assms(6)] by (simp only: set_sort_by)
  have ids: "mset (map fst ?ms) = mset (map fst ?ms')"
    unfolding m m' by (rule match_bids_fst_perm [OF pb sa])
  have "length (map fst ?ms) = length (map fst ?ms')"
    by (rule mset_eq_length [OF ids])
  then have len: "length ?ms = length ?ms'" by simp
  have prices: "clearing_prices (fst (runBatchAuction sid s))
                  = clearing_prices (fst (runBatchAuction sid s'))"
    by (simp only: runBatchAuction_matches(2) [OF assms(1,2)]
          runBatchAuction_matches(2) [OF assms(3,4)] len)
  have pairs: "inj_on priority (set asks) \<longrightarrow> mset ?ms = mset ?ms'"
  proof
    assume inj: "inj_on priority (set asks)"
    have "sort_by ?lt asks = sort_by ?lt asks'"
      by (rule ask_sort_unique [OF assms(6) inj])
    then show "mset ?ms = mset ?ms'"
      unfolding m m' using match_bids_perm [OF pb] by simp
  qed
  from prices ids pairs show ?thesis by (intro conjI)
qed

theorem batch_auction_permutation_witness:
  "mset [ask_x, ask_z] = mset [ask_z, ask_x]
   \<and> inj_on priority (set [ask_x, ask_z])
   \<and> clearing_prices (fst (runBatchAuction 1 (engine_books [batch_bid] [ask_x, ask_z] 3)))
       = clearing_prices (fst (runBatchAuction 1 (engine_books [batch_bid] [ask_z, ask_x] 3)))
   \<and> mset (matches (fst (runBatchAuction 1 (engine_books [batch_bid] [ask_x, ask_z] 3))))
       = mset (matches (fst (runBatchAuction 1 (engine_books [batch_bid] [ask_z, ask_x] 3))))
   \<and> matches (fst (runBatchAuction 1 (engine_books [batch_bid] [ask_z, ask_x] 3))) = [(30, 31)]"
proof -
  have p: "mset [ask_x, ask_z] = mset [ask_z, ask_x]" by simp
  have b: "mset [batch_bid] = mset [batch_bid]" by simp
  have i: "inj_on priority (set [ask_x, ask_z])"
    by (simp add: priority_def ask_x_def ask_z_def mk_order_def)
  note T = batch_auction_permutation
      [OF engine_books_lookup [of "[batch_bid]" "[ask_x, ask_z]" 3]
          engine_books_lookup [of "[batch_bid]" "[ask_z, ask_x]" 3] b p]
  have c: "clearing_prices (fst (runBatchAuction 1 (engine_books [batch_bid] [ask_x, ask_z] 3)))
       = clearing_prices (fst (runBatchAuction 1 (engine_books [batch_bid] [ask_z, ask_x] 3)))"
    by (rule T [THEN conjunct1])
  have m: "mset (matches (fst (runBatchAuction 1 (engine_books [batch_bid] [ask_x, ask_z] 3))))
       = mset (matches (fst (runBatchAuction 1 (engine_books [batch_bid] [ask_z, ask_x] 3))))"
    by (rule T [THEN conjunct2, THEN conjunct2, rule_format, OF i])
  have v: "matches (fst (runBatchAuction 1 (engine_books [batch_bid] [ask_z, ask_x] 3))) = [(30, 31)]"
    by (simp add: runBatchAuction_matches [OF engine_books_lookup] priority_def
          batch_bid_def ask_x_def ask_z_def mk_order_def word_sle_eq)
  show ?thesis
    by (intro conjI) (fact p i c m v)+
qed

subsection \<open>Time-decay pricing\<close>

lemma sint_word_of_int_64:
  "- (2 ^ 63) \<le> k \<Longrightarrow> k < 2 ^ 63 \<Longrightarrow> sint (word_of_int k :: 64 word) = k"
  by (simp add: signed_of_int signed_take_bit_int_eq_self)

lemma sdiv_nonneg: "0 \<le> a \<Longrightarrow> 0 \<le> b \<Longrightarrow> (a :: int) sdiv b = a div b"
  by (simp add: signed_divide_int_def sgn_if)

lemma time_diff_exact:
  assumes "0 \<le> a - b" and "a - b < 2 ^ 63"
  shows "time_diff a b = a - b"
proof -
  have "- (2 ^ 63) \<le> (0 :: int)" by simp
  then have "- (2 ^ 63) \<le> a - b" using assms(1) by (rule order_trans)
  then show ?thesis
    unfolding time_diff_def using assms(2) by (rule signed_take_bit_int_eq_self)
qed

lemma milliseconds_le:
  assumes "0 \<le> (d :: int)"
  shows "d div 1000000 \<le> d"
proof -
  have "d div 1000000 \<le> d div 1" using assms by (rule zdiv_mono2) simp_all
  then show ?thesis by simp
qed

lemma getCurrentPrice_value:
  fixes slot :: AdSlot
  assumes act: "active slot"
    and t: "start_time slot \<le> now" "now \<le> end_time slot"
    and F: "0 \<le> sint (floor_cpm slot)"
    and W: "0 < (end_time slot - start_time slot) div 1000000"
           "end_time slot - start_time slot < 2 ^ 63"
    and prod: "sint (floor_cpm slot) div 2 * ((end_time slot - start_time slot) div 1000000) < 2 ^ 63"
    and top: "sint (floor_cpm slot) + sint (floor_cpm slot) div 2 < 2 ^ 63"
  shows "sint (getCurrentPrice now slot) =
           sint (floor_cpm slot)
           + sint (floor_cpm slot) div 2 * ((end_time slot - now) div 1000000)
               div ((end_time slot - start_time slot) div 1000000)"
proof -
  define Fl where "Fl = sint (floor_cpm slot)"
  define p where "p = Fl div 2"
  define w where "w = (end_time slot - start_time slot) div 1000000"
  define r where "r = (end_time slot - now) div 1000000"
  have r0: "0 \<le> r" using t by (simp add: r_def)
  have rw: "r \<le> w" using t by (simp add: r_def w_def zdiv_mono1)
  have p0: "0 \<le> p" using F by (simp add: p_def Fl_def)
  have d0: "0 \<le> end_time slot - start_time slot" "0 \<le> end_time slot - now"
    and dle: "end_time slot - now \<le> end_time slot - start_time slot"
    using t by simp_all
  have dr63: "end_time slot - now < 2 ^ 63" using dle W(2) by (rule le_less_trans)
  have w0: "0 < w" using W(1) by (simp add: w_def)
  have "w \<le> end_time slot - start_time slot"
    unfolding w_def using d0(1) by (rule milliseconds_le)
  then have w63: "w < 2 ^ 63" using W(2) by (rule le_less_trans)
  have pw: "p * w < 2 ^ 63" using prod by (simp add: p_def w_def Fl_def)
  have pr: "p * r \<le> p * w" using rw p0 by (simp add: mult_left_mono)
  have pr0: "0 \<le> p * r" using p0 r0 by simp
  have q: "p * r div w \<le> p"
  proof -
    have "p * r div w \<le> p * w div w" using pr by (rule zdiv_mono1) (rule w0)
    then show ?thesis using w0 by simp
  qed
  have q0: "0 \<le> p * r div w" using pr0 w0 by (simp add: pos_imp_zdiv_nonneg_iff)
  have Flp: "Fl + p < 2 ^ 63" using top by (simp add: Fl_def p_def)
  have Fl63: "Fl < 2 ^ 63" using Flp p0 by simp
  have tw: "to_milliseconds (time_diff (end_time slot) (start_time slot)) = word_of_int w"
    using t by (simp add: to_milliseconds_def w_def sdiv_nonneg time_diff_exact [OF d0(1) W(2)])
  have tr: "to_milliseconds (time_diff (end_time slot) now) = word_of_int r"
    using t by (simp add: to_milliseconds_def r_def sdiv_nonneg time_diff_exact [OF d0(2) dr63])
  have sw: "sint (word_of_int w :: 64 word) = w"
    using w0 w63 by (intro sint_word_of_int_64) simp_all
  have prem: "sdiv64 (floor_cpm slot) 2 = word_of_int p"
    using F by (simp add: sdiv64_def p_def Fl_def sdiv_nonneg)
  have mul: "(word_of_int p :: 64 word) * word_of_int r = word_of_int (p * r)"
    by simp
  have spr: "sint (word_of_int (p * r) :: 64 word) = p * r"
    using pr0 pr pw by (intro sint_word_of_int_64) simp_all
  have spr': "sint (word_of_int p * word_of_int r :: 64 word) = p * r"
    using spr by simp
  have quot: "sdiv64 (word_of_int p * word_of_int r) (word_of_int w) = word_of_int (p * r div w)"
    using pr0 w0 by (simp add: sdiv64_def spr' sw sdiv_nonneg del: of_int_mult)
  have notle: "\<not> (word_of_int w :: 64 word) \<le>s 0"
    using w0 by (simp add: word_sle_eq sw)
  have val: "getCurrentPrice now slot = floor_cpm slot + word_of_int (p * r div w)"
    using act t notle by (simp add: getCurrentPrice_def Let_def tw tr prem quot del: of_int_mult)
  have "floor_cpm slot + word_of_int (p * r div w) = word_of_int (Fl + p * r div w)"
    by (simp add: Fl_def)
  moreover have "sint (word_of_int (Fl + p * r div w) :: 64 word) = Fl + p * r div w"
    using F q0 q Flp by (intro sint_word_of_int_64) (simp_all add: Fl_def)
  ultimately have "sint (getCurrentPrice now slot) = Fl + p * r div w"
    by (simp add: val)
  then show ?thesis by (simp add: Fl_def p_def r_def w_def)
qed

lemma getCurrentPrice_at_end:
  assumes "active slot" and "start_time slot \<le> end_time slot"
  shows "getCurrentPrice (end_time slot) slot = floor_cpm slot"
  using assms by (simp add: getCurrentPrice_def Let_def to_milliseconds_def time_diff_def sdiv64_def)

lemma getCurrentPrice_short_window:
  assumes "active slot" and "start_time slot \<le> now" and "now \<le> end_time slot"
    and "end_time slot - start_time slot < 1000000"
  shows "getCurrentPrice now slot = floor_cpm slot"
proof -
  have d0: "0 \<le> end_time slot - start_time slot" using assms by simp
  then have z: "(end_time slot - start_time slot) div 1000000 = 0"
    using assms(4) by (simp add: div_pos_pos_trivial)
  have "(1000000 :: int) < 2 ^ 63" by simp
  with assms(4) have "end_time slot - start_time slot < 2 ^ 63" by (rule less_trans)
  then have "time_diff (end_time slot) (start_time slot) = end_time slot - start_time slot"
    using d0 by (intro time_diff_exact)
  then have "to_milliseconds (time_diff (end_time slot) (start_time slot)) = 0"
    using d0 z by (simp add: to_milliseconds_def sdiv_nonneg)
  then show ?thesis
    using assms by (simp add: getCurrentPrice_def Let_def)
qed

text \<open>
  Beyond the 64-bit range the product \<open>premium * time_remaining\<close> wraps around. With a
  floor of \<open>10^18\<close> (one AUSD in wei) and a window of 1000 ms it already does; the
  theorems below are about slots for which it does not.
\<close>

lemma price_product_wraps:
  "getCurrentPrice 0 slot_wei = 1001937910009842106
   \<and> getCurrentPrice 500000000 slot_wei = 991745582968066278
   \<and> getCurrentPrice 1000000000 slot_wei = 1000000000000000000"
  by (simp add: getCurrentPrice_def slot_wei_def slot_S1_def to_milliseconds_def time_diff_def
        Let_def word_sle_eq sdiv64_def signed_divide_int_def)

text \<open>
  Claim C4, as stated, fails. Durations are truncated to whole milliseconds: a slot
  whose window is half a millisecond long (\<open>end_time - start_time > 0\<close>) is priced at
  \<open>floor_cpm = 1000\<close> at its start, not at 1500. \<open>registerAdSlot\<close> checks no field, and
  for the slot with the floor \<open>-1000\<close> the price rises over the window, from \<open>-1500\<close> at
  the start to \<open>-1000\<close> at the end.
\<close>

theorem price_not_decaying_from_one_and_a_half:
  "active slot_brief \<and> start_time slot_brief = 0 \<and> end_time slot_brief = 500000
   \<and> floor_cpm slot_brief = 1000 \<and> getCurrentPrice 0 slot_brief = 1000
   \<and> fst (registerAdSlot slot_negative new_engine)
   \<and> active slot_negative \<and> start_time slot_negative = 0 \<and> end_time slot_negative = 1000000000
   \<and> getCurrentPrice 0 slot_negative = - 1500
   \<and> getCurrentPrice 1000000000 slot_negative = - 1000
   \<and> \<not> getCurrentPrice 1000000000 slot_negative \<le>s getCurrentPrice 0 slot_negative"
  by (simp add: getCurrentPrice_def slot_brief_def slot_negative_def slot_S1_def
        to_milliseconds_def time_diff_def registerAdSlot_def new_engine_def
        Let_def word_sle_eq sdiv64_def signed_divide_int_def)

text \<open>
  Claim C4, amended. The price is 0 when \<open>now > end_time\<close> or the slot is inactive, and
  otherwise \<open>floor_cpm\<close> when \<open>now < start_time\<close>. For an active slot at a time within
  \<open>[start_time, end_time]\<close> it is \<open>floor_cpm\<close> when the window is shorter than one
  millisecond. When moreover \<open>floor_cpm \<ge> 0\<close>, the window is at least one millisecond
  and shorter than \<open>2^63\<close> ns, and \<open>(floor_cpm / 2) * window_ms\<close> and
  \<open>floor_cpm + floor_cpm / 2\<close> are below \<open>2^63\<close>, the price within the window is
  \<open>floor_cpm + (floor_cpm / 2) * remaining_ms / window_ms\<close>, with durations truncated
  to whole milliseconds and integer division; it never increases over the window, it
  is \<open>floor_cpm + floor_cpm / 2\<close> at \<open>start_time\<close> and \<open>floor_cpm\<close> at \<open>end_time\<close>.
  Nothing is stated for slots outside these bounds.
\<close>

theorem getCurrentPrice_decay:
  "(end_time slot < now \<or> \<not> active slot \<longrightarrow> getCurrentPrice now slot = 0)
   \<and> (active slot \<and> now \<le> end_time slot \<and> now < start_time slot
        \<longrightarrow> getCurrentPrice now slot = floor_cpm slot)
   \<and> (active slot \<and> start_time slot \<le> now \<and> now \<le> end_time slot
        \<and> end_time slot - start_time slot < 1000000
        \<longrightarrow> getCurrentPrice now slot = floor_cpm slot)
   \<and> (active slot \<and> 0 \<le> sint (floor_cpm slot)
        \<and> 0 < (end_time slot - start_time slot) div 1000000
        \<and> end_time slot - start_time slot < 2 ^ 63
        \<and> sint (floor_cpm slot) div 2 * ((end_time slot - start_time slot) div 1000000) < 2 ^ 63
        \<and> sint (floor_cpm slot) + sint (floor_cpm slot) div 2 < 2 ^ 63
        \<longrightarrow>
          (start_time slot \<le> now \<and> now \<le> end_time slot \<longrightarrow>
             sint (getCurrentPrice now slot) =
               sint (floor_cpm slot)
               + sint (floor_cpm slot) div 2 * ((end_time slot - now) div 1000000)
                   div ((end_time slot - start_time slot) div 1000000))
          \<and> (start_time slot \<le> t1 \<and> t1 \<le> t2 \<and> t2 \<le> end_time slot \<longrightarrow>
                getCurrentPrice t2 slot \<le>s getCurrentPrice t1 slot)
          \<and> sint (getCurrentPrice (start_time slot) slot)
                = sint (floor_cpm slot) + sint (floor_cpm slot) div 2
          \<and> getCurrentPrice (end_time slot) slot = floor_cpm slot)"
proof -
  have P1: "end_time slot < now \<or> \<not> active slot \<longrightarrow> getCurrentPrice now slot = 0"
    by (auto simp: getCurrentPrice_def)
  have P2: "active slot \<and> now \<le> end_time slot \<and> now < start_time slot
        \<longrightarrow> getCurrentPrice now slot = floor_cpm slot"
    by (auto simp: getCurrentPrice_def)
  have P3: "active slot \<and> start_time slot \<le> now \<and> now \<le> end_time slot
        \<and> end_time slot - start_time slot < 1000000
        \<longrightarrow> getCurrentPrice now slot = floor_cpm slot"
    using getCurrentPrice_short_window by blast
  have P4: "(start_time slot \<le> now \<and> now \<le> end_time slot \<longrightarrow>
             sint (getCurrentPrice now slot) =
               sint (floor_cpm slot)
               + sint (floor_cpm slot) div 2 * ((end_time slot - now) div 1000000)
                   div ((end_time slot - start_time slot) div 1000000))
          \<and> (start_time slot \<le> t1 \<and> t1 \<le> t2 \<and> t2 \<le> end_time slot \<longrightarrow>
                getCurrentPrice t2 slot \<le>s getCurrentPrice t1 slot)
          \<and> sint (getCurrentPrice (start_time slot) slot)
                = sint (floor_cpm slot) + sint (floor_cpm slot) div 2
          \<and> getCurrentPrice (end_time slot) slot = floor_cpm slot"
    if h: "active slot \<and> 0 \<le> sint (floor_cpm slot)
        \<and> 0 < (end_time slot - start_time slot) div 1000000
        \<and> end_time slot - start_time slot < 2 ^ 63
        \<and> sint (floor_cpm slot) div 2 * ((end_time slot - start_time slot) div 1000000) < 2 ^ 63
        \<and> sint (floor_cpm slot) + sint (floor_cpm slot) div 2 < 2 ^ 63"
  proof -
    from h have act: "active slot" and F: "0 \<le> sint (floor_cpm slot)"
      and W: "0 < (end_time slot - start_time slot) div 1000000"
             "end_time slot - start_time slot < 2 ^ 63"
      and prod: "sint (floor_cpm slot) div 2 * ((end_time slot - start_time slot) div 1000000) < 2 ^ 63"
      and top: "sint (floor_cpm slot) + sint (floor_cpm slot) div 2 < 2 ^ 63"
      by simp_all
    note val = getCurrentPrice_value [OF act _ _ F W prod top]
    have se: "start_time slot \<le> end_time slot"
    proof (rule ccontr)
      assume "\<not> start_time slot \<le> end_time slot"
      then have "end_time slot - start_time slot < 0" by simp
      then have "(end_time slot - start_time slot) div 1000000 < 0"
        by (simp add: div_neg_pos_less0)
      with W(1) show False by simp
    qed
    have a: "start_time slot \<le> now \<and> now \<le> end_time slot \<longrightarrow>
             sint (getCurrentPrice now slot) =
               sint (floor_cpm slot)
               + sint (floor_cpm slot) div 2 * ((end_time slot - now) div 1000000)
                   div ((end_time slot - start_time slot) div 1000000)"
      using val [of now] by blast
    have b: "start_time slot \<le> t1 \<and> t1 \<le> t2 \<and> t2 \<le> end_time slot \<longrightarrow>
                getCurrentPrice t2 slot \<le>s getCurrentPrice t1 slot"
    proof
      assume o: "start_time slot \<le> t1 \<and> t1 \<le> t2 \<and> t2 \<le> end_time slot"
      then have v1: "sint (getCurrentPrice t1 slot) =
               sint (floor_cpm slot)
               + sint (floor_cpm slot) div 2 * ((end_time slot - t1) div 1000000)
                   div ((end_time slot - start_time slot) div 1000000)"
        by (intro val) simp_all
      from o have v2: "sint (getCurrentPrice t2 slot) =
               sint (floor_cpm slot)
               + sint (floor_cpm slot) div 2 * ((end_time slot - t2) div 1000000)
                   div ((end_time slot - start_time slot) div 1000000)"
        by (intro val) simp_all
      from o have "(end_time slot - t2) div 1000000 \<le> (end_time slot - t1) div 1000000"
        by (simp add: zdiv_mono1)
      then have "sint (floor_cpm slot) div 2 * ((end_time slot - t2) div 1000000)
                   \<le> sint (floor_cpm slot) div 2 * ((end_time slot - t1) div 1000000)"
        using F by (simp add: mult_left_mono)
      then have "sint (floor_cpm slot) div 2 * ((end_time slot - t2) div 1000000)
                   div ((end_time slot - start_time slot) div 1000000)
                 \<le> sint (floor_cpm slot) div 2 * ((end_time slot - t1) div 1000000)
                   div ((end_time slot - start_time slot) div 1000000)"
        by (rule zdiv_mono1) (rule W(1))
      then show "getCurrentPrice t2 slot \<le>s getCurrentPrice t1 slot"
        by (simp add: word_sle_eq v1 v2)
    qed
    have c: "sint (getCurrentPrice (start_time slot) slot)
                = sint (floor_cpm slot) + sint (floor_cpm slot) div 2"
      using val [of "start_time slot"] se W(1) by simp
    have d: "getCurrentPrice (end_time slot) slot = floor_cpm slot"
      by (rule getCurrentPrice_at_end [OF act se])
    from a b c d show ?thesis by (intro conjI)
  qed
  from P1 P2 P3 P4 show ?thesis by (intro conjI impI) blast+
qed

theorem getCurrentPrice_decay_witness:
  "(active slot_S1 \<and> 0 \<le> sint (floor_cpm slot_S1)
      \<and> 0 < (end_time slot_S1 - start_time slot_S1) div 1000000
      \<and> end_time slot_S1 - start_time slot_S1 < 2 ^ 63
      \<and> sint (floor_cpm slot_S1) div 2 * ((end_time slot_S1 - start_time slot_S1) div 1000000) < 2 ^ 63
      \<and> sint (floor_cpm slot_S1) + sint (floor_cpm slot_S1) div 2 < 2 ^ 63)
   \<and> sint (getCurrentPrice 500000000 slot_S1) = 1250
   \<and> getCurrentPrice 500000000 slot_S1 \<le>s getCurrentPrice 0 slot_S1
   \<and> sint (getCurrentPrice 0 slot_S1) = 1500
   \<and> getCurrentPrice 1000000000 slot_S1 = 1000
   \<and> getCurrentPrice 1000000001 slot_S1 = 0
   \<and> getCurrentPrice (- 5) slot_S1 = 1000
   \<and> getCurrentPrice 0 slot_brief = 1000"
proof -
  have h: "active slot_S1 \<and> 0 \<le> sint (floor_cpm slot_S1)
      \<and> 0 < (end_time slot_S1 - start_time slot_S1) div 1000000
      \<and> end_time slot_S1 - start_time slot_S1 < 2 ^ 63
      \<and> sint (floor_cpm slot_S1) div 2 * ((end_time slot_S1 - start_time slot_S1) div 1000000) < 2 ^ 63
      \<and> sint (floor_cpm slot_S1) + sint (floor_cpm slot_S1) div 2 < 2 ^ 63"
    by (simp add: slot_S1_def)
  have f: "start_time slot_S1 = 0" "end_time slot_S1 = 1000000000" "floor_cpm slot_S1 = 1000"
    "active slot_S1"
    by (simp_all add: slot_S1_def)
  note T = getCurrentPrice_decay [of slot_S1 500000000 0 500000000]
  note T4 = T [THEN conjunct2, THEN conjunct2, THEN conjunct2, THEN mp, OF h]
  have a: "sint (getCurrentPrice 500000000 slot_S1) = 1250"
    using T4 [THEN conjunct1] by (simp add: f)
  have b: "getCurrentPrice 500000000 slot_S1 \<le>s getCurrentPrice 0 slot_S1"
    using T4 [THEN conjunct2, THEN conjunct1] by (simp add: f)
  have c: "sint (getCurrentPrice 0 slot_S1) = 1500"
    using T4 [THEN conjunct2, THEN conjunct2, THEN conjunct1] by (simp add: f)
  have d: "getCurrentPrice 1000000000 slot_S1 = 1000"
    using T4 [THEN conjunct2, THEN conjunct2, THEN conjunct2] by (simp add: f)
  have e: "getCurrentPrice 1000000001 slot_S1 = 0"
    using getCurrentPrice_decay [of slot_S1 1000000001 0 0, THEN conjunct1] by (simp add: f)
  have g: "getCurrentPrice (- 5) slot_S1 = 1000"
    using getCurrentPrice_decay [of slot_S1 "- 5" 0 0, THEN conjunct2, THEN conjunct1]
    by (simp add: f)
  have i: "getCurrentPrice 0 slot_brief = 1000"
    using getCurrentPrice_decay [of slot_brief 0 0 0, THEN conjunct2, THEN conjunct2, THEN conjunct1]
    by (simp add: slot_brief_def f)
  from h a b c d e g i show ?thesis
    by blast
qed

subsection \<open>Reserve product of the AMM pool\<close>

lemma sint_of_uint_small:
  fixes w :: "64 word"
  assumes "uint w < 2 ^ 63"
  shows "sint w = uint w"
proof -
  have z: "0 \<le> uint w" by simp
  have "sint (word_of_int (uint w) :: 64 word) = uint w"
  proof (rule sint_word_of_int_64)
    have "- (2 ^ 63) \<le> (0 :: int)" by simp
    then show "- (2 ^ 63) \<le> uint w" using z by (rule order_trans)
    show "uint w < 2 ^ 63" by (fact assms)
  qed
  then show ?thesis by simp
qed

lemma uint_of_sint_nonneg:
  fixes w :: "64 word"
  assumes "0 \<le> sint w"
  shows "uint w = sint w"
proof -
  have "sint w < 2 ^ 63" using sint_lt [of w] by simp
  then have "sint w < 2 ^ 64" by simp
  then have "uint (word_of_int (sint w) :: 64 word) = sint w"
    using assms by (simp add: uint_word_of_int del: of_int_sint)
  then show ?thesis by simp
qed

lemma quote_supply_in:
  fixes pool :: AdMM_Pool
  assumes A: "0 < sint (reserve_ausd pool)" and S: "0 < uint (reserve_supply pool)"
    and K: "reserve_product pool < 2 ^ 63"
    and N: "uint (reserve_supply pool) + uint q < 2 ^ 64"
  shows "\<exists>out. getSwapPrice pool q True = Inr out
           \<and> sint out = sint (reserve_ausd pool)
                 - reserve_product pool div (uint (reserve_supply pool) + uint q)"
proof -
  define a where "a = sint (reserve_ausd pool)"
  define s where "s = uint (reserve_supply pool)"
  define n where "n = s + uint q"
  have ua: "uint (reserve_ausd pool) = a"
    using A by (simp add: a_def uint_of_sint_nonneg)
  have k63: "a * s < 2 ^ 63" using K by (simp add: reserve_product_def a_def s_def)
  have a63: "a < 2 ^ 63" using sint_lt [of "reserve_ausd pool"] by (simp add: a_def)
  have q0: "0 \<le> uint q" by simp
  have n0: "0 < n" using S q0 unfolding n_def s_def by linarith
  have "uint (reserve_ausd pool) * uint (reserve_supply pool) < 2 ^ 64"
    using k63 by (simp add: ua s_def)
  then have uk: "uint (reserve_ausd pool * reserve_supply pool) = a * s"
    by (simp add: uint_mult_lem [THEN iffD1] ua s_def)
  have un: "uint (reserve_supply pool + q) = n"
    using N by (simp add: uint_add_lem [THEN iffD1] n_def s_def)
  have nz: "reserve_supply pool + q \<noteq> 0"
    using un n0 by auto
  have ud: "uint (reserve_ausd pool * reserve_supply pool div (reserve_supply pool + q)) = a * s div n"
    by (simp add: uint_div uk un)
  have sn: "s \<le> n" using q0 unfolding n_def by linarith
  have a0: "0 < a" using A by (simp add: a_def)
  have "a * s div n \<le> a * n div n"
    using sn a0 n0 by (intro zdiv_mono1) (simp_all add: mult_left_mono)
  then have dle: "a * s div n \<le> a" using n0 by simp
  have d0: "0 \<le> a * s div n"
    using a0 S n0 by (simp add: pos_imp_zdiv_nonneg_iff s_def)
  have "uint (reserve_ausd pool * reserve_supply pool div (reserve_supply pool + q))
          \<le> uint (reserve_ausd pool)"
    using dle by (simp add: ud ua)
  then have uo: "uint (reserve_ausd pool
                  - reserve_ausd pool * reserve_supply pool div (reserve_supply pool + q))
                = a - a * s div n"
    by (simp add: uint_sub_lem [THEN iffD1] ud ua)
  have "a - a * s div n < 2 ^ 63" using a63 d0 by simp
  then have so: "sint (reserve_ausd pool
                  - reserve_ausd pool * reserve_supply pool div (reserve_supply pool + q))
                = a - a * s div n"
    by (simp add: sint_of_uint_small uo)
  have ra: "reserve_ausd pool \<noteq> 0" using A by auto
  have rs: "reserve_supply pool \<noteq> 0" using S by auto
  have "getSwapPrice pool q True =
          Inr (reserve_ausd pool
                 - reserve_ausd pool * reserve_supply pool div (reserve_supply pool + q))"
    using ra rs nz by (simp add: getSwapPrice_def Let_def)
  then show ?thesis
    using so by (simp add: reserve_product_def a_def s_def n_def)
qed

lemma quote_ausd_in:
  fixes pool :: AdMM_Pool
  assumes A: "0 < sint (reserve_ausd pool)" and S: "0 < uint (reserve_supply pool)"
    and K: "reserve_product pool < 2 ^ 63"
    and N: "sint (reserve_ausd pool) + uint q < 2 ^ 63"
  shows "\<exists>out. getSwapPrice pool q False = Inr out
           \<and> uint out = uint (reserve_supply pool)
                 - reserve_product pool div (sint (reserve_ausd pool) + uint q)"
proof -
  define a where "a = sint (reserve_ausd pool)"
  define s where "s = uint (reserve_supply pool)"
  define n where "n = a + uint q"
  have a0: "0 < a" using A by (simp add: a_def)
  have s0: "0 < s" using S by (simp add: s_def)
  have ua: "uint (reserve_ausd pool) = a"
    using A by (simp add: a_def uint_of_sint_nonneg)
  have k63: "a * s < 2 ^ 63" using K by (simp add: reserve_product_def a_def s_def)
  have q0: "0 \<le> uint q" by simp
  have n0: "0 < n" using a0 q0 unfolding n_def by linarith
  have an: "a \<le> n" using q0 unfolding n_def by linarith
  have n63: "n < 2 ^ 63" using N by (simp add: n_def a_def)
  have "uint (reserve_ausd pool) * uint (reserve_supply pool) < 2 ^ 64"
    using k63 by (simp add: ua s_def)
  then have uk: "uint (reserve_ausd pool * reserve_supply pool) = a * s"
    by (simp add: uint_mult_lem [THEN iffD1] ua s_def)
  have sk: "sint (reserve_ausd pool * reserve_supply pool) = a * s"
    using k63 by (simp add: sint_of_uint_small uk)
  have "uint (reserve_ausd pool) + uint q < 2 ^ 64"
    using n63 by (simp add: ua n_def)
  then have un: "uint (reserve_ausd pool + q) = n"
    by (simp add: uint_add_lem [THEN iffD1] ua n_def)
  have sn: "sint (reserve_ausd pool + q) = n"
    using n63 by (simp add: sint_of_uint_small un)
  have nz: "reserve_ausd pool + q \<noteq> 0"
    using un n0 by auto
  have k0: "0 \<le> a * s" using a0 s0 by simp
  have d0: "0 \<le> a * s div n" using k0 n0 by (simp add: pos_imp_zdiv_nonneg_iff)
  have "a * s div n \<le> n * s div n"
    using an s0 n0 by (intro zdiv_mono1) (simp_all add: mult_right_mono)
  then have ds: "a * s div n \<le> s" using n0 by simp
  have s64: "s < 2 ^ 64" using uint_lt2p [of "reserve_supply pool"] by (simp add: s_def)
  have quot: "sdiv64 (reserve_ausd pool * reserve_supply pool) (reserve_ausd pool + q)
                = word_of_int (a * s div n)"
    using k0 n0 by (simp add: sdiv64_def sk sn sdiv_nonneg)
  have "a * s div n < 2 ^ 64" using ds s64 by simp
  then have ud: "uint (word_of_int (a * s div n) :: 64 word) = a * s div n"
    using d0 by (simp add: uint_word_of_int del: of_int_mult)
  have le: "uint (word_of_int (a * s div n) :: 64 word) \<le> uint (reserve_supply pool)"
    using ds ud unfolding s_def by linarith
  have "uint (reserve_supply pool - word_of_int (a * s div n))
          = uint (reserve_supply pool) - uint (word_of_int (a * s div n) :: 64 word)"
    by (rule uint_sub_lem [THEN iffD1, OF le])
  then have uo: "uint (reserve_supply pool - word_of_int (a * s div n)) = s - a * s div n"
    by (simp only: ud s_def [symmetric])
  have ra: "reserve_ausd pool \<noteq> 0" using A by auto
  have rs: "reserve_supply pool \<noteq> 0" using S by auto
  have nov: "\<not> (sint (reserve_ausd pool * reserve_supply pool) = - (2 ^ 63)
               \<and> sint (reserve_ausd pool + q) = - 1)"
    using n0 by (simp add: sn)
  have "getSwapPrice pool q False = Inr (reserve_supply pool - word_of_int (a * s div n))"
    using ra rs nz nov by (simp add: getSwapPrice_def Let_def quot del: of_int_mult)
  then show ?thesis
    using uo by (simp add: reserve_product_def a_def s_def n_def del: of_int_mult)
qed

lemma floor_product_bounds:
  fixes k n :: int
  assumes "0 < n"
  shows "n * (k div n) \<le> k \<and> k < n * (k div n) + n"
proof -
  have "k = n * (k div n) + k mod n" by simp
  moreover have "0 \<le> k mod n" "k mod n < n" using assms by simp_all
  ultimately show ?thesis by linarith
qed

lemma tryImmedateMatch_amm_pools: "amm_pools (tryImmedateMatch sid s) = amm_pools s"
  by (simp add: tryImmedateMatch_def split: prod.splits)

lemma addLimitOrder_amm_pools: "amm_pools (snd (addLimitOrder ord s)) = amm_pools s"
  by (simp add: addLimitOrder_def Let_def tryImmedateMatch_amm_pools split: prod.splits)

lemma executeAMMSwap_refused:
  assumes "executeAMMSwap ord s = Inr (False, s')" and "fmlookup (amm_pools s) sid = Some p"
  shows "fmlookup (amm_pools s') sid = Some p"
  using assms
  by (auto simp: executeAMMSwap_def index_or_insert_def Let_def
           split: option.splits sum.splits if_splits)

lemma addOrder_routes:
  assumes "addOrder now ord s = Inr (b, s')"
  shows "(\<not> b \<and> s' = s)
         \<or> ((order_type ord = LIMIT \<or> order_type ord = MARKET) \<and> addLimitOrder ord s = (b, s'))
         \<or> (order_type ord = COMMIT_REVEAL \<and> addCommitRevealOrder ord s = (b, s'))
         \<or> (order_type ord = AMM_SWAP \<and> executeAMMSwap ord s = Inr (b, s'))
         \<or> (order_type ord = FLASH_COVER \<and> executeFlashCover ord s = (b, s'))"
  using assms
  by (cases "order_type ord") (auto simp: addOrder_def split: option.splits if_splits)

lemma addOrder_refused_pools:
  assumes "addOrder now ord s = Inr (False, s')" and "fmlookup (amm_pools s) sid = Some p"
  shows "fmlookup (amm_pools s') sid = Some p"
proof -
  from addOrder_routes [OF assms(1)]
  consider "s' = s" | "addLimitOrder ord s = (False, s')"
    | "addCommitRevealOrder ord s = (False, s')" | "executeAMMSwap ord s = Inr (False, s')"
    | "executeFlashCover ord s = (False, s')"
    by blast
  then show ?thesis
  proof cases
    case 1
    with assms(2) show ?thesis by simp
  next
    case 2
    then show ?thesis by (simp add: addLimitOrder_def Let_def)
  next
    case 3
    then show ?thesis by (simp add: addCommitRevealOrder_def split: prod.splits)
  next
    case 4
    then show ?thesis using assms(2) by (rule executeAMMSwap_refused)
  next
    case 5
    then show ?thesis by (simp add: executeFlashCover_def)
  qed
qed

lemma addOrder_other_pools:
  assumes "order_type ord \<noteq> AMM_SWAP" and "addOrder now ord s = Inr (b, s')"
  shows "amm_pools s' = amm_pools s"
proof -
  from addOrder_routes [OF assms(2)] assms(1)
  consider "s' = s" | "s' = snd (addLimitOrder ord s)"
    | "s' = snd (addCommitRevealOrder ord s)" | "s' = snd (executeFlashCover ord s)"
    by (metis snd_conv)
  then show ?thesis
  proof cases
    case 1
    then show ?thesis by simp
  next
    case 2
    then show ?thesis by (simp add: addLimitOrder_amm_pools)
  next
    case 3
    then show ?thesis by (simp add: addCommitRevealOrder_def split: prod.splits)
  next
    case 4
    then show ?thesis by (simp add: executeFlashCover_def)
  qed
qed

text \<open>
  Claim C3, as stated, fails. On the pool with reserves 1000 and 1000 an accepted swap
  of quantity 1 leaves the reserves 1001 and 999: the product falls from 1000000 to
  999999.
\<close>

theorem swap_lowers_reserve_product:
  "addLiquidity 1 1000 1000 engine_S1 = Inr (True, engine_pool1000)
   \<and> addOrder 500 (swap_order True 1) engine_pool1000 =
       Inr (True, engine_S1\<lparr>amm_pools :=
             fmupd 1 \<lparr>pool_slot_id = 0, reserve_ausd = 1001, reserve_supply = 999, last_price = 1\<rparr>
               fmempty\<rparr>)
   \<and> reserve_product pool_1000 = 1000000
   \<and> reserve_product \<lparr>pool_slot_id = 0, reserve_ausd = 1001, reserve_supply = 999, last_price = 1\<rparr>
       = 999999"
  by (simp add: addLiquidity_def addOrder_def executeAMMSwap_def getSwapPrice_def
        engine_pool1000_def pool_1000_def engine_S1_eq new_engine_def index_or_insert_def zero_pool_def
        swap_order_def mk_order_def slot_S1_def Let_def word_sle_eq reserve_product_def)

text \<open>
  The quote is computed in 64 bits. When \<open>quantity_in\<close> makes the deposited reserve
  wrap around, the sum is 0 and the division faults, or the quote is unrelated to the
  reserves: on the pool with reserves 1000 and 1000, \<open>2^64 - 1000\<close> deposited as supply
  and \<open>2^64 - 1001\<close> deposited as AUSD.
\<close>

lemma quote_of_wrapping_quantity:
  "getSwapPrice pool_1000 18446744073709550616 True = Inl DivisionByZero
   \<and> getSwapPrice pool_1000 18446744073709550615 False = Inr 1001000"
  by (simp add: getSwapPrice_def pool_1000_def Let_def sdiv64_def signed_divide_int_def)

text \<open>
  Claim C3, amended. Take a pool with both reserves positive and reserve product \<open>k\<close>
  below \<open>2^63\<close>, and a \<open>quantity_in\<close> that does not make the deposited reserve wrap
  around: \<open>reserve_supply + quantity_in < 2^64\<close> when supply is deposited,
  \<open>reserve_ausd + quantity_in < 2^63\<close> when AUSD is deposited. Then the quote is the
  counter reserve minus \<open>floor(k / new)\<close>, where \<open>new\<close> is the deposited reserve plus
  \<open>quantity_in\<close>. The quoted pair of post-swap reserves therefore has a product of at
  most \<open>k\<close> and more than \<open>k - new\<close>: floor division rounds the product down, never
  up. A submission that \<open>addOrder\<close> refuses leaves every existing pool as it was, and
  orders of the other four types leave the pool map unchanged.
\<close>

theorem swap_quote_rounds_product_down:
  "(0 < sint (reserve_ausd pool) \<and> 0 < uint (reserve_supply pool)
      \<and> reserve_product pool < 2 ^ 63 \<and> uint (reserve_supply pool) + uint q < 2 ^ 64
     \<longrightarrow> (\<exists>out. getSwapPrice pool q True = Inr out
            \<and> (uint (reserve_supply pool) + uint q) * (sint (reserve_ausd pool) - sint out)
                 \<le> reserve_product pool
            \<and> reserve_product pool
                 < (uint (reserve_supply pool) + uint q) * (sint (reserve_ausd pool) - sint out)
                   + (uint (reserve_supply pool) + uint q)))
   \<and> (0 < sint (reserve_ausd pool) \<and> 0 < uint (reserve_supply pool)
      \<and> reserve_product pool < 2 ^ 63 \<and> sint (reserve_ausd pool) + uint q < 2 ^ 63
     \<longrightarrow> (\<exists>out. getSwapPrice pool q False = Inr out
            \<and> (sint (reserve_ausd pool) + uint q) * (uint (reserve_supply pool) - uint out)
                 \<le> reserve_product pool
            \<and> reserve_product pool
                 < (sint (reserve_ausd pool) + uint q) * (uint (reserve_supply pool) - uint out)
                   + (sint (reserve_ausd pool) + uint q)))
   \<and> (\<forall>s' sid p. addOrder now ord s = Inr (False, s') \<and> fmlookup (amm_pools s) sid = Some p
         \<longrightarrow> fmlookup (amm_pools s') sid = Some p)
   \<and> (\<forall>b s'. order_type ord \<noteq> AMM_SWAP \<and> addOrder now ord s = Inr (b, s')
         \<longrightarrow> amm_pools s' = amm_pools s)"
proof -
  have q0: "0 \<le> uint q" by simp
  have P1: "\<exists>out. getSwapPrice pool q True = Inr out
            \<and> (uint (reserve_supply pool) + uint q) * (sint (reserve_ausd pool) - sint out)
                 \<le> reserve_product pool
            \<and> reserve_product pool
                 < (uint (reserve_supply pool) + uint q) * (sint (reserve_ausd pool) - sint out)
                   + (uint (reserve_supply pool) + uint q)"
    if h: "0 < sint (reserve_ausd pool) \<and> 0 < uint (reserve_supply pool)
      \<and> reserve_product pool < 2 ^ 63 \<and> uint (reserve_supply pool) + uint q < 2 ^ 64"
  proof -
    from h have A: "0 < sint (reserve_ausd pool)" and S: "0 < uint (reserve_supply pool)"
      and K: "reserve_product pool < 2 ^ 63" and N: "uint (reserve_supply pool) + uint q < 2 ^ 64"
      by simp_all
    from quote_supply_in [OF A S K N] obtain out where
      o: "getSwapPrice pool q True = Inr out"
      and v: "sint out = sint (reserve_ausd pool)
                 - reserve_product pool div (uint (reserve_supply pool) + uint q)"
      by blast
    have n0: "0 < uint (reserve_supply pool) + uint q" using S q0 by linarith
    have d: "sint (reserve_ausd pool) - sint out
               = reserve_product pool div (uint (reserve_supply pool) + uint q)"
      using v by simp
    note fb = floor_product_bounds [OF n0, of "reserve_product pool", folded d]
    show ?thesis
      by (rule exI [of _ out]) (intro conjI o fb [THEN conjunct1] fb [THEN conjunct2])
  qed
  have P2: "\<exists>out. getSwapPrice pool q False = Inr out
            \<and> (sint (reserve_ausd pool) + uint q) * (uint (reserve_supply pool) - uint out)
                 \<le> reserve_product pool
            \<and> reserve_product pool
                 < (sint (reserve_ausd pool) + uint q) * (uint (reserve_supply pool) - uint out)
                   + (sint (reserve_ausd pool) + uint q)"
    if h: "0 < sint (reserve_ausd pool) \<and> 0 < uint (reserve_supply pool)
      \<and> reserve_product pool < 2 ^ 63 \<and> sint (reserve_ausd pool) + uint q < 2 ^ 63"
  proof -
    from h have A: "0 < sint (reserve_ausd pool)" and S: "0 < uint (reserve_supply pool)"
      and K: "reserve_product pool < 2 ^ 63" and N: "sint (reserve_ausd pool) + uint q < 2 ^ 63"
      by simp_all
    from quote_ausd_in [OF A S K N] obtain out where
      o: "getSwapPrice pool q False = Inr out"
      and v: "uint out = uint (reserve_supply pool)
                 - reserve_product pool div (sint (reserve_ausd pool) + uint q)"
      by blast
    have n0: "0 < sint (reserve_ausd pool) + uint q" using A q0 by linarith
    have d: "uint (reserve_supply pool) - uint out
               = reserve_product pool div (sint (reserve_ausd pool) + uint q)"
      using v by simp
    note fb = floor_product_bounds [OF n0, of "reserve_product pool", folded d]
    show ?thesis
      by (rule exI [of _ out]) (intro conjI o fb [THEN conjunct1] fb [THEN conjunct2])
  qed
  have P3: "\<forall>s' sid p. addOrder now ord s = Inr (False, s') \<and> fmlookup (amm_pools s) sid = Some p
         \<longrightarrow> fmlookup (amm_pools s') sid = Some p"
  proof (intro allI impI)
    fix s' sid p
    assume x: "addOrder now ord s = Inr (False, s') \<and> fmlookup (amm_pools s) sid = Some p"
    show "fmlookup (amm_pools s') sid = Some p"
      by (rule addOrder_refused_pools [OF x [THEN conjunct1] x [THEN conjunct2]])
  qed
  have P4: "\<forall>b s'. order_type ord \<noteq> AMM_SWAP \<and> addOrder now ord s = Inr (b, s')
         \<longrightarrow> amm_pools s' = amm_pools s"
  proof (intro allI impI)
    fix b s'
    assume x: "order_type ord \<noteq> AMM_SWAP \<and> addOrder now ord s = Inr (b, s')"
    show "amm_pools s' = amm_pools s"
      by (rule addOrder_other_pools [OF x [THEN conjunct1] x [THEN conjunct2]])
  qed
  show ?thesis
    by (intro conjI impI P1 P2 P3 P4) simp_all
qed

theorem swap_quote_rounds_product_down_witness:
  "(0 < sint (reserve_ausd pool_1000) \<and> 0 < uint (reserve_supply pool_1000)
      \<and> reserve_product pool_1000 < 2 ^ 63 \<and> uint (reserve_supply pool_1000) + uint (1 :: 64 word) < 2 ^ 64
      \<and> sint (reserve_ausd pool_1000) + uint (1 :: 64 word) < 2 ^ 63)
   \<and> getSwapPrice pool_1000 1 True = Inr 1
   \<and> getSwapPrice pool_1000 1 False = Inr 1
   \<and> (\<exists>out. getSwapPrice pool_1000 1 True = Inr out
          \<and> (uint (reserve_supply pool_1000) + uint (1 :: 64 word))
               * (sint (reserve_ausd pool_1000) - sint out) \<le> reserve_product pool_1000)
   \<and> (\<exists>out. getSwapPrice pool_1000 1 False = Inr out
          \<and> (sint (reserve_ausd pool_1000) + uint (1 :: 64 word))
               * (uint (reserve_supply pool_1000) - uint out) \<le> reserve_product pool_1000)
   \<and> (addOrder 500 (swap_order True 0) engine_pool1000 = Inr (False, engine_pool1000)
        \<and> fmlookup (amm_pools engine_pool1000) 1 = Some pool_1000)
   \<and> (order_type stale_order \<noteq> AMM_SWAP
        \<and> addOrder 500 stale_order engine_pool1000
            = Inr (True, engine_pool1000\<lparr>bid_books := fmupd 1 [stale_order] (bid_books engine_pool1000),
                                        total_orders_processed := 1\<rparr>))
   \<and> amm_pools (engine_pool1000\<lparr>bid_books := fmupd 1 [stale_order] (bid_books engine_pool1000),
                                 total_orders_processed := 1\<rparr>) = amm_pools engine_pool1000"
proof -
  have h: "0 < sint (reserve_ausd pool_1000) \<and> 0 < uint (reserve_supply pool_1000)
      \<and> reserve_product pool_1000 < 2 ^ 63 \<and> uint (reserve_supply pool_1000) + uint (1 :: 64 word) < 2 ^ 64
      \<and> sint (reserve_ausd pool_1000) + uint (1 :: 64 word) < 2 ^ 63"
    by (simp add: pool_1000_def reserve_product_def)
  have v1: "getSwapPrice pool_1000 1 True = Inr 1"
    by (simp add: getSwapPrice_def pool_1000_def Let_def)
  have v2: "getSwapPrice pool_1000 1 False = Inr 1"
    by (simp add: getSwapPrice_def pool_1000_def Let_def sdiv64_def signed_divide_int_def)
  note T = swap_quote_rounds_product_down [of pool_1000 1 500 stale_order engine_pool1000]
  have e1: "\<exists>out. getSwapPrice pool_1000 1 True = Inr out
          \<and> (uint (reserve_supply pool_1000) + uint (1 :: 64 word))
               * (sint (reserve_ausd pool_1000) - sint out) \<le> reserve_product pool_1000"
    using T [THEN conjunct1] h by blast
  have e2: "\<exists>out. getSwapPrice pool_1000 1 False = Inr out
          \<and> (sint (reserve_ausd pool_1000) + uint (1 :: 64 word))
               * (uint (reserve_supply pool_1000) - uint out) \<le> reserve_product pool_1000"
    using T [THEN conjunct2, THEN conjunct1] h by blast
  have r: "addOrder 500 (swap_order True 0) engine_pool1000 = Inr (False, engine_pool1000)
        \<and> fmlookup (amm_pools engine_pool1000) 1 = Some pool_1000"
    by (simp add: addOrder_def executeAMMSwap_def getSwapPrice_def engine_pool1000_def
          pool_1000_def engine_S1_eq new_engine_def index_or_insert_def swap_order_def
          mk_order_def slot_S1_def Let_def word_sle_eq)
  have r': "fmlookup (amm_pools engine_pool1000) 1 = Some pool_1000"
    by (rule swap_quote_rounds_product_down
          [of pool_1000 1 500 "swap_order True 0" engine_pool1000,
           THEN conjunct2, THEN conjunct2, THEN conjunct1, rule_format, OF r])
  have a: "order_type stale_order \<noteq> AMM_SWAP
        \<and> addOrder 500 stale_order engine_pool1000
            = Inr (True, engine_pool1000\<lparr>bid_books := fmupd 1 [stale_order] (bid_books engine_pool1000),
                                        total_orders_processed := 1\<rparr>)"
    by (simp add: addOrder_def addLimitOrder_def stale_order_def engine_pool1000_def engine_S1_eq
          new_engine_def index_or_insert_def mk_order_def slot_S1_def Let_def)
  have f: "amm_pools (engine_pool1000\<lparr>bid_books := fmupd 1 [stale_order] (bid_books engine_pool1000),
                                 total_orders_processed := 1\<rparr>) = amm_pools engine_pool1000"
    by (rule T [THEN conjunct2, THEN conjunct2, THEN conjunct2, rule_format, OF a])
  from h v1 v2 e1 e2 r r' a f show ?thesis
    by blast
qed

end
